theory Spec2Isabelle
  imports Main "HOL-Library.Word"
begin

section \<open>The Platform KeyStore loader of GRUB on PowerPC (platform\_keystore.c)\<close>

text \<open>
  A shallow embedding of \<^verbatim>\<open>grub-core/kern/powerpc/ieee1275/platform_keystore.c\<close>.
  Every C function of the file is one HOL function of the same name; the file's static
  variables, the heap, the allocator's future answers and \<^verbatim>\<open>grub_errno\<close> are
  the fields of one record that is passed through. The firmware services are a
  parameter.
\<close>

subsection \<open>Machine integers, addresses, error codes\<close>

text \<open>
  The target is the 32-bit PowerPC Open Firmware port: \<^verbatim>\<open>grub_size_t\<close> and
  pointers are 32 bits wide, so sizes are 32-bit words whose arithmetic wraps around.
  A heap address is a natural number; address 0 is the null pointer.
\<close>

type_synonym u8 = "8 word"
type_synonym u32 = "32 word"
type_synonym size_t = "32 word"
type_synonym addr = nat

datatype grub_err_t =
    GRUB_ERR_NONE
  | GRUB_ERR_OUT_OF_MEMORY
  | GRUB_ERR_BAD_NUMBER
  | GRUB_ERR_FILE_NOT_FOUND
  | GRUB_ERR_READ_ERROR
  | GRUB_ERR_BAD_FIRMWARE
  | GRUB_ERR_BUG

subsection \<open>Data layout\<close>

text \<open>
  \<^verbatim>\<open>grub_pks_sd_t\<close>: one signature database entry. A field of a slot that
  \<^verbatim>\<open>grub_realloc\<close> has just added holds no value yet: such a field is
  \<open>None\<close>, a field that was assigned is \<open>Some\<close> of its value.
\<close>

record grub_pks_sd =
  guid :: "u8 list option"
  data :: "addr option"
  data_size :: "size_t option"

text \<open>\<^verbatim>\<open>grub_pks_t\<close>: the keystore (db is the allow-list, dbx the deny-list).\<close>

record grub_pks_t =
  db :: addr
  dbx :: addr
  db_entries :: u32
  dbx_entries :: u32
  use_static_keys :: bool

text \<open>
  A heap block is a byte buffer that was allocated and not written (\<open>Raw\<close>, with its
  size), a byte buffer with its contents, or an array of \<^verbatim>\<open>grub_pks_sd_t\<close>.
\<close>

datatype block = Raw nat | Buf "u8 list" | Slots "grub_pks_sd list"

text \<open>
  The state of the program. \<open>blocks\<close> is the heap: the block at address \<open>a > 0\<close> is
  \<open>blocks ! (a - 1)\<close>, \<open>None\<close> once it was freed; a new block gets the next
  address, so an address is never handed out twice. \<open>plan\<close> holds the answers of the
  allocator to the requests to come (\<open>False\<close>: the request fails); when it is used
  up, requests succeed. \<open>freed\<close> lists the addresses given back, latest first.
  \<open>fault\<close> is raised by an operation C leaves undefined (reading past the bytes of
  a buffer, storing outside an array, freeing or indexing what is not a live block).
\<close>

record machine =
  blocks :: "block option list"
  plan :: "bool list"
  freed :: "addr list"
  fault :: bool
  grub_errno :: grub_err_t
  pks_max_object_size :: size_t
  pks_keystore :: grub_pks_t
  pks_use_keystore :: bool

text \<open>
  Modelled from the spec: the sizes of the packed structures, declared in
  \<^verbatim>\<open>grub/powerpc/ieee1275/platform_keystore.h\<close>, which is not among the sources.
  The signature list header is a 16-byte type GUID and three 32-bit fields (28 bytes);
  the entry header is the 16-byte owner GUID; a database entry is a 16-byte GUID, a
  pointer and a size (24 bytes on the 32-bit target).
\<close>

definition sizeof_grub_esl_t :: size_t where
  "sizeof_grub_esl_t = 28"

definition sizeof_grub_esd_t :: size_t where
  "sizeof_grub_esd_t = 16"

definition sizeof_grub_pks_sd_t :: size_t where
  "sizeof_grub_pks_sd_t = 24"

definition sizeof_grub_packed_guid_t :: nat where
  "sizeof_grub_packed_guid_t = 16"

text \<open>
  Modelled from the spec: \<^verbatim>\<open>grub_le_to_cpu32\<close> (grub/types.h, not among the
  sources) applied to a packed field: the little-endian value of the bytes.
\<close>

definition grub_le_to_cpu32 :: "u8 list \<Rightarrow> u32" where
  "grub_le_to_cpu32 bs = foldr (\<lambda>b w. ucast b + 256 * w) bs 0"

text \<open>The three size fields and the type GUID of the list header that starts a buffer.\<close>

definition esl_signature_type :: "u8 list \<Rightarrow> u8 list" where
  "esl_signature_type esl = take sizeof_grub_packed_guid_t esl"

definition esl_signature_list_size :: "u8 list \<Rightarrow> u32" where
  "esl_signature_list_size esl = grub_le_to_cpu32 (take 4 (drop 16 esl))"

definition esl_signature_header_size :: "u8 list \<Rightarrow> u32" where
  "esl_signature_header_size esl = grub_le_to_cpu32 (take 4 (drop 20 esl))"

definition esl_signature_size :: "u8 list \<Rightarrow> u32" where
  "esl_signature_size esl = grub_le_to_cpu32 (take 4 (drop 24 esl))"

subsection \<open>The heap and the allocator\<close>

definition lookup :: "block option list \<Rightarrow> addr \<Rightarrow> block option" where
  "lookup bs a = (if 0 < a \<and> a \<le> length bs then bs ! (a - 1) else None)"

definition store :: "block option list \<Rightarrow> addr \<Rightarrow> block option \<Rightarrow> block option list" where
  "store bs a b = bs[a - 1 := b]"

text \<open>Modelled from the spec: \<^verbatim>\<open>grub_error\<close> (kern/err.c) records the code in
  \<^verbatim>\<open>grub_errno\<close> and returns it.\<close>

definition grub_error :: "grub_err_t \<Rightarrow> machine \<Rightarrow> grub_err_t \<times> machine" where
  "grub_error n s = (n, s\<lparr>grub_errno := n\<rparr>)"

definition alloc_succeeds :: "machine \<Rightarrow> bool" where
  "alloc_succeeds s = (case plan s of [] \<Rightarrow> True | b # _ \<Rightarrow> b)"

text \<open>
  Modelled from the spec: \<^verbatim>\<open>grub_malloc\<close>, \<^verbatim>\<open>grub_free\<close> and
  \<^verbatim>\<open>grub_realloc\<close> (kern/mm.c, not among the sources). An allocation returns a
  new block or the null pointer; freeing the null pointer does nothing; a
  reallocation that succeeds moves the array to a new block of the requested size,
  keeps the slots that fit, leaves the added slots unassigned and frees the old block;
  one that fails leaves the old block as it is.
\<close>

definition grub_malloc :: "size_t \<Rightarrow> machine \<Rightarrow> addr \<times> machine" where
  "grub_malloc n s =
     (if alloc_succeeds s
      then (Suc (length (blocks s)),
            s\<lparr>blocks := blocks s @ [Some (Raw (unat n))], plan := tl (plan s)\<rparr>)
      else (0, s\<lparr>plan := tl (plan s)\<rparr>))"

definition grub_free :: "addr \<Rightarrow> machine \<Rightarrow> machine" where
  "grub_free p s =
     (if p = 0 then s
      else if lookup (blocks s) p = None then s\<lparr>fault := True\<rparr>
      else s\<lparr>blocks := store (blocks s) p None, freed := p # freed s\<rparr>)"

definition unassigned :: grub_pks_sd where
  "unassigned = \<lparr>guid = None, data = None, data_size = None\<rparr>"

definition resize :: "nat \<Rightarrow> grub_pks_sd list \<Rightarrow> grub_pks_sd list" where
  "resize n xs = take n xs @ replicate (n - length xs) unassigned"

definition grub_realloc :: "addr \<Rightarrow> size_t \<Rightarrow> machine \<Rightarrow> addr \<times> machine" where
  "grub_realloc p n s =
     (if \<not> alloc_succeeds s then (0, s\<lparr>plan := tl (plan s)\<rparr>)
      else
        let cap = unat n div unat sizeof_grub_pks_sd_t;
            s1 = s\<lparr>plan := tl (plan s)\<rparr>
        in if p = 0
           then (Suc (length (blocks s1)),
                 s1\<lparr>blocks := blocks s1 @ [Some (Slots (resize cap []))]\<rparr>)
           else (case lookup (blocks s1) p of
                   Some (Slots xs) \<Rightarrow>
                     (Suc (length (blocks s1)),
                      grub_free p (s1\<lparr>blocks := blocks s1 @ [Some (Slots (resize cap xs))]\<rparr>))
                 | _ \<Rightarrow>
                     (Suc (length (blocks s1)),
                      s1\<lparr>blocks := blocks s1 @ [Some (Slots (resize cap []))],
                         fault := True\<rparr>)))"

text \<open>
  \<^verbatim>\<open>grub_memcpy (dest, src, n)\<close>: \<open>src\<close> is the bytes that can be read from the
  source pointer on; asking for more of them than there are is a fault.
\<close>

definition grub_memcpy :: "addr \<Rightarrow> u8 list \<Rightarrow> size_t \<Rightarrow> machine \<Rightarrow> machine" where
  "grub_memcpy dest src n s =
     (case lookup (blocks s) dest of
        None \<Rightarrow> s\<lparr>fault := True\<rparr>
      | Some b \<Rightarrow>
          s\<lparr>blocks := store (blocks s) dest (Some (Buf (take (unat n) src))),
            fault := fault s \<or> length src < unat n\<rparr>)"

text \<open>An assignment to a field of \<^verbatim>\<open>signature[i]\<close>.\<close>

definition slot_assign ::
  "addr \<Rightarrow> u32 \<Rightarrow> (grub_pks_sd \<Rightarrow> grub_pks_sd) \<Rightarrow> machine \<Rightarrow> machine" where
  "slot_assign p i f s =
     (case lookup (blocks s) p of
        Some (Slots xs) \<Rightarrow>
          if unat i < length xs
          then s\<lparr>blocks := store (blocks s) p (Some (Slots (xs[unat i := f (xs ! unat i)])))\<rparr>
          else s\<lparr>fault := True\<rparr>
      | _ \<Rightarrow> s\<lparr>fault := True\<rparr>)"

subsection \<open>The signature list parser\<close>

text \<open>
  The local variables of \<^verbatim>\<open>_esl_to_esd\<close> and the two objects its last two
  parameters point to (\<open>pks_sd\<close> is \<^verbatim>\<open>*pks_sd\<close>, \<open>pks_sd_entries\<close> is
  \<^verbatim>\<open>*pks_sd_entries\<close>).
\<close>

record esl_vars =
  signature :: addr
  entries :: u32
  esl_size :: size_t
  offset :: size_t
  pks_sd :: addr
  pks_sd_entries :: u32

text \<open>
  One round of the \<^verbatim>\<open>while\<close> loop of \<^verbatim>\<open>_esl_to_esd\<close>: \<open>Inl\<close> is a
  \<^verbatim>\<open>return\<close> from inside the loop, \<open>Inr\<close> the variables and the state the next
  round starts with.
\<close>

definition esl_to_esd_round ::
  "u8 list \<Rightarrow> size_t \<Rightarrow> u8 list \<Rightarrow> esl_vars \<Rightarrow> machine
     \<Rightarrow> (grub_err_t \<times> esl_vars \<times> machine) + (esl_vars \<times> machine)" where
  "esl_to_esd_round esl_data signature_size guidp v s =
     (let dsize = signature_size - sizeof_grub_esd_t in
      case grub_realloc (signature v) ((entries v + 1) * sizeof_grub_pks_sd_t) s of
        (p, s1) \<Rightarrow>
          if p = 0
          then (case grub_error GRUB_ERR_OUT_OF_MEMORY s1 of
                  (e, s2) \<Rightarrow> Inl (e, v\<lparr>signature := p\<rparr>, s2))
          else
            (case grub_malloc (dsize * 1) s1 of
               (d, s2) \<Rightarrow>
                 let s3 = slot_assign p (entries v) (\<lambda>x. x\<lparr>data := Some d\<rparr>) s2 in
                 if d = 0
                 then (case grub_error GRUB_ERR_OUT_OF_MEMORY s3 of
                         (e, s4) \<Rightarrow>
                           Inl (e, v\<lparr>signature := p, pks_sd := p,
                                     pks_sd_entries := entries v + 1\<rparr>, s4))
                 else
                   let s4 = grub_memcpy d
                              (drop (unat (offset v) + unat sizeof_grub_esd_t) esl_data)
                              dsize s3;
                       s5 = slot_assign p (entries v) (\<lambda>x. x\<lparr>data_size := Some dsize\<rparr>) s4;
                       s6 = slot_assign p (entries v) (\<lambda>x. x\<lparr>guid := Some guidp\<rparr>) s5
                   in Inr (v\<lparr>signature := p, entries := entries v + 1,
                             esl_size := esl_size v - signature_size,
                             offset := offset v + signature_size\<rparr>, s6)))"

text \<open>
  The \<^verbatim>\<open>while\<close> loop of \<^verbatim>\<open>_esl_to_esd\<close> with the statements after it.
  The loop runs as long as \<open>esl_size\<close> is not zero and allocations succeed, which
  may be forever: the result \<open>None\<close> stands for a loop that does not return.
\<close>

partial_function (option) esl_to_esd_loop ::
  "u8 list \<Rightarrow> size_t \<Rightarrow> u8 list \<Rightarrow> esl_vars \<Rightarrow> machine \<Rightarrow> (grub_err_t \<times> esl_vars \<times> machine) option"
where
  "esl_to_esd_loop esl_data signature_size guidp v s =
     (if esl_size v > 0 then
        (case esl_to_esd_round esl_data signature_size guidp v s of
           Inl r \<Rightarrow> Some r
         | Inr (v', s') \<Rightarrow> esl_to_esd_loop esl_data signature_size guidp v' s')
      else Some (GRUB_ERR_NONE,
                 v\<lparr>pks_sd := signature v, pks_sd_entries := entries v\<rparr>, s))"

text \<open>
  \<^verbatim>\<open>_esl_to_esd\<close> (a name cannot start with an underscore here): the result is
  the error code, \<^verbatim>\<open>*pks_sd\<close> and \<^verbatim>\<open>*pks_sd_entries\<close> on return, and
  the state.
\<close>

definition esl_to_esd' ::
  "u8 list \<Rightarrow> size_t \<Rightarrow> size_t \<Rightarrow> u8 list \<Rightarrow> addr \<Rightarrow> u32 \<Rightarrow> machine
     \<Rightarrow> (grub_err_t \<times> addr \<times> u32 \<times> machine) option" where
  "esl_to_esd' esl_data esl_sz signature_size guidp sd n s =
     map_option (\<lambda>(e, v, s'). (e, pks_sd v, pks_sd_entries v, s'))
       (esl_to_esd_loop esl_data signature_size guidp
          \<lparr>signature = sd, entries = n, esl_size = esl_sz, offset = 0,
           pks_sd = sd, pks_sd_entries = n\<rparr> s)"

text \<open>
  \<^verbatim>\<open>esl_to_esd\<close>. \<open>esl_data\<close> is the bytes that can be read from the pointer on
  (\<open>None\<close>: the null pointer). The second component of the result is
  \<^verbatim>\<open>*next_esl\<close> on return. Reading the 28-byte header from fewer bytes is a
  fault.
\<close>

definition esl_to_esd ::
  "u8 list option \<Rightarrow> size_t \<Rightarrow> addr \<Rightarrow> u32 \<Rightarrow> machine
     \<Rightarrow> (grub_err_t \<times> size_t \<times> addr \<times> u32 \<times> machine) option" where
  "esl_to_esd esl_data next_esl sd n s =
     (if next_esl < sizeof_grub_esl_t \<or> esl_data = None
      then (case grub_error GRUB_ERR_BUG s of (e, s1) \<Rightarrow> Some (e, next_esl, sd, n, s1))
      else
        let esl = the esl_data;
            s0 = s\<lparr>fault := fault s \<or> length esl < unat sizeof_grub_esl_t\<rparr>;
            esl_sz = esl_signature_list_size esl;
            signature_header_size = esl_signature_header_size esl;
            signature_size = esl_signature_size esl;
            guidv = esl_signature_type esl
        in if esl_sz < sizeof_grub_esl_t \<or> esl_sz > next_esl
           then (case grub_error GRUB_ERR_BUG s0 of (e, s1) \<Rightarrow> Some (e, next_esl, sd, n, s1))
           else
             let off = sizeof_grub_esl_t + signature_header_size;
                 esl_sz' = esl_sz - off
             in map_option (\<lambda>(e, p, m, s'). (e, esl_sz, p, m, s'))
                  (esl_to_esd' (drop (unat off) esl) esl_sz' signature_size guidv sd n s0))"

subsection \<open>The variable unpacker\<close>

text \<open>The \<^verbatim>\<open>do ... while\<close> loop of \<^verbatim>\<open>pks_sd_from_esl\<close>.\<close>

partial_function (option) pks_sd_from_esl_loop ::
  "u8 list option \<Rightarrow> size_t \<Rightarrow> size_t \<Rightarrow> addr \<Rightarrow> u32 \<Rightarrow> machine
     \<Rightarrow> (grub_err_t \<times> addr \<times> u32 \<times> machine) option"
where
  "pks_sd_from_esl_loop esl_data esl_sz next_esl sd n s =
     Option.bind (esl_to_esd esl_data next_esl sd n s)
       (\<lambda>(rc, next_esl1, sd1, n1, s1).
          if rc \<noteq> GRUB_ERR_NONE then Some (rc, sd1, n1, s1)
          else
            let esl_data' = map_option (drop (unat next_esl1)) esl_data;
                esl_sz' = esl_sz - next_esl1;
                next_esl2 = esl_sz'
            in if esl_sz' > 0
               then pks_sd_from_esl_loop esl_data' esl_sz' next_esl2 sd1 n1 s1
               else Some (rc, sd1, n1, s1))"

definition pks_sd_from_esl ::
  "u8 list option \<Rightarrow> size_t \<Rightarrow> addr \<Rightarrow> u32 \<Rightarrow> machine
     \<Rightarrow> (grub_err_t \<times> addr \<times> u32 \<times> machine) option" where
  "pks_sd_from_esl esl_data esl_sz sd n s = pks_sd_from_esl_loop esl_data esl_sz esl_sz sd n s"

subsection \<open>The firmware\<close>

text \<open>
  The Open Firmware client calls the file makes, declared in
  \<^verbatim>\<open>grub/powerpc/ieee1275/ieee1275.h\<close>. Each field gives the answer of the call of
  the same name: the return code, and with it the value or the bytes the call has to
  store through its result pointers. The firmware writes no more bytes than the
  buffer length it was given (\<open>written\<close>), and the length it reports is the number
  of bytes it wrote.
\<close>

record firmware =
  grub_ieee1275_test :: "string \<Rightarrow> int"
  grub_ieee1275_pks_max_object_size :: "int \<times> u32"
  grub_ieee1275_pks_read_object :: "u32 \<Rightarrow> string \<Rightarrow> u32 \<Rightarrow> u32 \<Rightarrow> int \<times> u8 list"
  grub_ieee1275_pks_read_sbvar :: "u32 \<Rightarrow> u32 \<Rightarrow> u32 \<Rightarrow> int \<times> u8 list"

definition written :: "u32 \<Rightarrow> u8 list \<Rightarrow> u8 list" where
  "written buffer_len bytes = take (unat buffer_len) bytes"

definition PKS_CONSUMER_FW :: u32 where
  "PKS_CONSUMER_FW = 1"

definition PKS_MAX_OBJ_SIZE :: string where
  "PKS_MAX_OBJ_SIZE = ''pks-max-object-size''"

definition SB_VERSION_KEY_NAME :: string where
  "SB_VERSION_KEY_NAME = ''SB_VERSION''"

definition SB_VERSION_KEY_LEN :: u32 where
  "SB_VERSION_KEY_LEN = of_nat (length SB_VERSION_KEY_NAME)"

definition PKS_SBVAR_DB :: u32 where
  "PKS_SBVAR_DB = 1"

definition PKS_SBVAR_DBX :: u32 where
  "PKS_SBVAR_DBX = 2"

text \<open>
  Modelled from the spec: the result code of the firmware that means "not found",
  \<^verbatim>\<open>IEEE1275_CELL_NOT_FOUND\<close> of \<^verbatim>\<open>grub/ieee1275/ieee1275.h\<close>, which is not
  among the sources: a distinguished negative value.
\<close>

definition IEEE1275_CELL_NOT_FOUND :: int where
  "IEEE1275_CELL_NOT_FOUND = - 7"

subsection \<open>The mode probe\<close>

text \<open>The byte a pointer to a byte buffer points to (\<open>None\<close>: it was never written).\<close>

definition first_byte :: "addr \<Rightarrow> machine \<Rightarrow> u8 option" where
  "first_byte p s = (case lookup (blocks s) p of Some (Buf (b # _)) \<Rightarrow> Some b | _ \<Rightarrow> None)"

text \<open>\<^verbatim>\<open>read_sbversion_from_pks\<close>: the error code, \<^verbatim>\<open>*out\<close> and the state.\<close>

definition read_sbversion_from_pks :: "firmware \<Rightarrow> machine \<Rightarrow> grub_err_t \<times> addr \<times> machine" where
  "read_sbversion_from_pks fw s =
     (case grub_malloc (pks_max_object_size s) s of
        (out, s1) \<Rightarrow>
          if out = 0
          then (case grub_error GRUB_ERR_OUT_OF_MEMORY s1 of (e, s2) \<Rightarrow> (e, out, s2))
          else
            (case grub_ieee1275_pks_read_object fw PKS_CONSUMER_FW SB_VERSION_KEY_NAME
                    SB_VERSION_KEY_LEN (pks_max_object_size s1) of
               (rc, bytes) \<Rightarrow>
                 let wr = written (pks_max_object_size s1) bytes;
                     s2 = s1\<lparr>blocks := store (blocks s1) out (Some (Buf wr))\<rparr>;
                     outlen = (of_nat (length wr) :: u32)
                 in if rc < 0
                    then (case grub_error GRUB_ERR_READ_ERROR s2 of (e, s3) \<Rightarrow> (e, out, s3))
                    else if outlen \<noteq> 1 \<or> (case first_byte out s2 of Some b \<Rightarrow> b \<ge> 2 | None \<Rightarrow> True)
                    then (case grub_error GRUB_ERR_BAD_NUMBER s2 of (e, s3) \<Rightarrow> (e, out, s3))
                    else (GRUB_ERR_NONE, out, s2)))"

definition is_pks_present :: "firmware \<Rightarrow> machine \<Rightarrow> bool \<times> machine" where
  "is_pks_present fw s =
     (let ret = False;
          rc = grub_ieee1275_test fw PKS_MAX_OBJ_SIZE
      in if rc < 0
         then (case grub_error GRUB_ERR_BAD_FIRMWARE s of (e, s1) \<Rightarrow> (ret, s1))
         else
           (case grub_ieee1275_pks_max_object_size fw of
              (rc, sz) \<Rightarrow>
                let s1 = s\<lparr>pks_max_object_size := sz\<rparr> in
                if rc < 0
                then (case grub_error GRUB_ERR_BAD_NUMBER s1 of (e, s2) \<Rightarrow> (ret, s2))
                else
                  (case read_sbversion_from_pks fw s1 of
                     (err, dat, s2) \<Rightarrow>
                       if err \<noteq> GRUB_ERR_NONE
                       then (ret, grub_free dat s2)
                       else
                         let ret = (if first_byte dat s2 = Some 1 then True else False)
                         in (ret, grub_free dat s2))))"

subsection \<open>The secure boot variable loader\<close>

text \<open>
  \<^verbatim>\<open>read_sbvar_from_pks\<close>: the error code, \<^verbatim>\<open>*pks_sd\<close> and
  \<^verbatim>\<open>*pks_sd_entries\<close> on return, and the state.
\<close>

definition read_sbvar_from_pks ::
  "firmware \<Rightarrow> u32 \<Rightarrow> u32 \<Rightarrow> addr \<Rightarrow> u32 \<Rightarrow> machine
     \<Rightarrow> (grub_err_t \<times> addr \<times> u32 \<times> machine) option" where
  "read_sbvar_from_pks fw sbvarflags sbvartype sd n s =
     (case grub_malloc (pks_max_object_size s) s of
        (esl_data, s1) \<Rightarrow>
          if esl_data = 0
          then (case grub_error GRUB_ERR_OUT_OF_MEMORY s1 of (e, s2) \<Rightarrow> Some (e, sd, n, s2))
          else
            (case grub_ieee1275_pks_read_sbvar fw sbvarflags sbvartype (pks_max_object_size s1) of
               (rc, bytes) \<Rightarrow>
                 let wr = written (pks_max_object_size s1) bytes;
                     s2 = s1\<lparr>blocks := store (blocks s1) esl_data (Some (Buf wr))\<rparr>;
                     esl_data_size = (of_nat (length wr) :: size_t)
                 in if rc = IEEE1275_CELL_NOT_FOUND
                    then (case grub_error GRUB_ERR_FILE_NOT_FOUND s2 of
                            (err, s3) \<Rightarrow> Some (err, sd, n, grub_free esl_data s3))
                    else if rc < 0
                    then (case grub_error GRUB_ERR_READ_ERROR s2 of
                            (err, s3) \<Rightarrow> Some (err, sd, n, grub_free esl_data s3))
                    else if esl_data_size > 0
                    then map_option (\<lambda>(err, sd', n', s3). (err, sd', n', grub_free esl_data s3))
                           (pks_sd_from_esl (Some wr) esl_data_size sd n s2)
                    else Some (GRUB_ERR_BAD_NUMBER, sd, n, grub_free esl_data s2)))"

subsection \<open>The keystore manager\<close>

text \<open>One round of a loop of \<^verbatim>\<open>grub_pks_tmp_free\<close>: \<^verbatim>\<open>grub_free (p[i].data)\<close>.\<close>

definition free_entry_data :: "addr \<Rightarrow> machine \<Rightarrow> nat \<Rightarrow> machine" where
  "free_entry_data p s i =
     (case lookup (blocks s) p of
        Some (Slots xs) \<Rightarrow>
          if i < length xs
          then (case data (xs ! i) of Some d \<Rightarrow> grub_free d s | None \<Rightarrow> s\<lparr>fault := True\<rparr>)
          else s\<lparr>fault := True\<rparr>
      | _ \<Rightarrow> s\<lparr>fault := True\<rparr>)"

definition pks_keystore_zero :: grub_pks_t where
  "pks_keystore_zero =
     \<lparr>db = 0, dbx = 0, db_entries = 0, dbx_entries = 0, use_static_keys = False\<rparr>"

definition grub_pks_tmp_free :: "machine \<Rightarrow> machine" where
  "grub_pks_tmp_free s =
     (let s1 = foldl (free_entry_data (db (pks_keystore s))) s
                 [0 ..< unat (db_entries (pks_keystore s))];
          s2 = foldl (free_entry_data (dbx (pks_keystore s1))) s1
                 [0 ..< unat (dbx_entries (pks_keystore s1))];
          s3 = grub_free (db (pks_keystore s2)) s2;
          s4 = grub_free (dbx (pks_keystore s3)) s3
      in s4\<lparr>pks_keystore := pks_keystore_zero\<rparr>)"

definition grub_pks_get_keystore :: "machine \<Rightarrow> grub_pks_t option" where
  "grub_pks_get_keystore s = (if pks_use_keystore s = True then Some (pks_keystore s) else None)"

text \<open>
  \<^verbatim>\<open>grub_pks_keystore_init\<close>. The two calls of \<^verbatim>\<open>read_sbvar_from_pks\<close> write
  through pointers into \<^verbatim>\<open>pks_keystore\<close>: the values they return are stored
  there.
\<close>

definition grub_pks_keystore_init :: "firmware \<Rightarrow> machine \<Rightarrow> machine option" where
  "grub_pks_keystore_init fw s =
     (case is_pks_present fw s of
        (present, s1) \<Rightarrow>
          if present = False then Some s1
          else
            Option.bind
              (read_sbvar_from_pks fw 0 PKS_SBVAR_DB
                 (db (pks_keystore s1)) (db_entries (pks_keystore s1)) s1)
              (\<lambda>(rc, p, n, s2).
                 let s3 = s2\<lparr>pks_keystore := (pks_keystore s2)\<lparr>db := p, db_entries := n\<rparr>\<rparr>;
                     (rc1, s4) =
                       (if rc = GRUB_ERR_FILE_NOT_FOUND \<or> rc = GRUB_ERR_BAD_NUMBER
                        then (GRUB_ERR_NONE,
                              s3\<lparr>pks_keystore := (pks_keystore s3)\<lparr>use_static_keys := True\<rparr>\<rparr>)
                        else (rc, s3))
                 in Option.bind
                      (if rc1 = GRUB_ERR_NONE
                       then map_option
                              (\<lambda>(rc2, p2, n2, s5).
                                 (if rc2 = GRUB_ERR_FILE_NOT_FOUND \<or> rc2 = GRUB_ERR_BAD_NUMBER
                                  then GRUB_ERR_NONE else rc2,
                                  s5\<lparr>pks_keystore :=
                                       (pks_keystore s5)\<lparr>dbx := p2, dbx_entries := n2\<rparr>\<rparr>))
                              (read_sbvar_from_pks fw 0 PKS_SBVAR_DBX
                                 (dbx (pks_keystore s4)) (dbx_entries (pks_keystore s4)) s4)
                       else Some (rc1, s4))
                      (\<lambda>(rc3, s6).
                         let s7 = (if rc3 \<noteq> GRUB_ERR_NONE then grub_pks_tmp_free s6 else s6)
                         in Some (s7\<lparr>pks_use_keystore := True\<rparr>))))"

text \<open>The state the program starts in: the initialisers of the static variables.\<close>

definition boot :: "bool list \<Rightarrow> machine" where
  "boot answers =
     \<lparr>blocks = [], plan = answers, freed = [], fault = False, grub_errno = GRUB_ERR_NONE,
      pks_max_object_size = 0, pks_keystore = pks_keystore_zero, pks_use_keystore = False\<rparr>"

subsection \<open>Sample inputs\<close>

text \<open>
  A firmware that has the keystore interface, a maximum object size of 64 bytes, and
  answers the version read with the bytes \<open>ver\<close> and the read of the secure boot
  variable of type \<open>ty\<close> with \<open>vars ty\<close>.
\<close>

definition sample_fw :: "u8 list \<Rightarrow> (u32 \<Rightarrow> int \<times> u8 list) \<Rightarrow> firmware" where
  "sample_fw ver vars =
     \<lparr>grub_ieee1275_test = (\<lambda>_. 0),
      grub_ieee1275_pks_max_object_size = (0, 64),
      grub_ieee1275_pks_read_object = (\<lambda>_ _ _ _. (0, ver)),
      grub_ieee1275_pks_read_sbvar = (\<lambda>_ ty _. vars ty)\<rparr>"

text \<open>The answers of a firmware that holds neither secure boot variable.\<close>

definition no_vars :: "u32 \<Rightarrow> int \<times> u8 list" where
  "no_vars ty = (IEEE1275_CELL_NOT_FOUND, [])"

text \<open>The next \<open>k\<close> requests to the allocator succeed.\<close>

definition allocs_succeed :: "nat \<Rightarrow> machine \<Rightarrow> bool" where
  "allocs_succeed k s = (\<forall>b \<in> set (take k (plan s)). b)"

text \<open>The static variables that only the mode probe and the keystore manager write.\<close>

definition statics :: "machine \<Rightarrow> grub_pks_t \<times> bool \<times> size_t" where
  "statics s = (pks_keystore s, pks_use_keystore s, pks_max_object_size s)"

subsection \<open>Notions used to state what the parser builds\<close>

text \<open>The entry that a completed round of the loop of \<^verbatim>\<open>_esl_to_esd\<close> leaves in its slot.\<close>

definition new_entry :: "u8 list \<Rightarrow> size_t \<Rightarrow> addr \<Rightarrow> grub_pks_sd" where
  "new_entry g dsize a = \<lparr>guid = Some g, data = Some a, data_size = Some dsize\<rparr>"

text \<open>
  The pair of a pointer \<open>p\<close> and a count \<open>n\<close> stands for the array \<open>xs\<close>: the
  null pointer with no entry, or a live array block of \<open>n\<close> slots.
\<close>

definition sd_array :: "machine \<Rightarrow> addr \<Rightarrow> u32 \<Rightarrow> grub_pks_sd list \<Rightarrow> bool" where
  "sd_array s p n xs =
     (length xs = unat n \<and> (if p = 0 then xs = [] else lookup (blocks s) p = Some (Slots xs)))"

text \<open>The heap after the block at \<open>p\<close> was given back (nothing for the null pointer).\<close>

definition release :: "addr \<Rightarrow> block option list \<Rightarrow> block option list" where
  "release p bs = (if p = 0 then bs else store bs p None)"

text \<open>
  The payload of the \<open>i\<close>-th entry of a region of entries of \<open>sz\<close> bytes each that
  starts \<open>off\<close> bytes into \<open>buf\<close>: what follows the 16-byte owner GUID.
\<close>

definition payload :: "u8 list \<Rightarrow> nat \<Rightarrow> nat \<Rightarrow> nat \<Rightarrow> u8 list" where
  "payload buf off sz i = take (sz - 16) (drop (off + i * sz + 16) buf)"

text \<open>
  The entries that \<open>k\<close> completed rounds add when the heap had \<open>l\<close> blocks before the
  first: round \<open>i\<close> allocates the array at address \<open>l + 2 * i + 1\<close> and the payload
  buffer at \<open>l + 2 * i + 2\<close>.
\<close>

definition new_entries :: "nat \<Rightarrow> u8 list \<Rightarrow> size_t \<Rightarrow> nat \<Rightarrow> grub_pks_sd list" where
  "new_entries l g dsize k = map (\<lambda>i. new_entry g dsize (l + 2 * i + 2)) [0 ..< k]"

text \<open>The variables of the loop after \<open>k\<close> completed rounds.\<close>

definition vars_after :: "esl_vars \<Rightarrow> nat \<Rightarrow> nat \<Rightarrow> size_t \<Rightarrow> esl_vars" where
  "vars_after v l k sz =
     v\<lparr>signature := (if k = 0 then signature v else l + 2 * k - 1),
       entries := entries v + of_nat k,
       esl_size := esl_size v - of_nat k * sz,
       offset := offset v + of_nat k * sz\<rparr>"

text \<open>
  The state \<open>s'\<close> after \<open>k\<close> completed rounds that started in \<open>s\<close> with the array
  \<open>xs\<close> at \<open>p\<close>: the last array block holds \<open>xs\<close> and the new entries, every payload
  buffer is live with its bytes, the arrays of the rounds before and the array the
  loop started with are freed, every other block that existed is as it was, and
  \<open>2 * k\<close> answers of the allocator are used up.
\<close>

definition grown ::
  "machine \<Rightarrow> addr \<Rightarrow> grub_pks_sd list \<Rightarrow> u8 list \<Rightarrow> size_t \<Rightarrow> (nat \<Rightarrow> u8 list) \<Rightarrow> nat \<Rightarrow> machine \<Rightarrow> bool" where
  "grown s p xs g dsize pl k s' \<longleftrightarrow>
     length (blocks s') = length (blocks s) + 2 * k
     \<and> (if k = 0 then blocks s' = blocks s
         else lookup (blocks s') (length (blocks s) + 2 * k - 1)
                = Some (Slots (xs @ new_entries (length (blocks s)) g dsize k)))
     \<and> (\<forall>i < k. lookup (blocks s') (length (blocks s) + 2 * i + 2) = Some (Buf (pl i)))
     \<and> (\<forall>i. Suc i < k \<longrightarrow> lookup (blocks s') (length (blocks s) + 2 * i + 1) = None)
     \<and> (\<forall>a \<le> length (blocks s). a \<noteq> p \<longrightarrow> lookup (blocks s') a = lookup (blocks s) a)
     \<and> (0 < k \<longrightarrow> p \<noteq> 0 \<longrightarrow> lookup (blocks s') p = None)
     \<and> plan s' = drop (2 * k) (plan s) \<and> fault s' = fault s
     \<and> grub_errno s' = grub_errno s \<and> statics s' = statics s"

text \<open>The state in which a round ends whose payload allocation fails.\<close>

definition failed_round :: "machine \<Rightarrow> addr \<Rightarrow> grub_pks_sd list \<Rightarrow> machine" where
  "failed_round s p xs =
     s\<lparr>blocks := release p (blocks s) @ [Some (Slots (xs @ [unassigned\<lparr>data := Some 0\<rparr>]))],
       plan := tl (tl (plan s)),
       freed := (if p = 0 then freed s else p # freed s),
       grub_errno := GRUB_ERR_OUT_OF_MEMORY\<rparr>"

subsection \<open>Well-formed signature lists and what they hold\<close>

text \<open>
  What a database entry stands for: its GUID, its size field, and the bytes in the
  buffer its data pointer points to.
\<close>

definition sd_view :: "machine \<Rightarrow> grub_pks_sd \<Rightarrow> u8 list option \<times> size_t option \<times> u8 list option" where
  "sd_view s e =
     (guid e, data_size e,
      case data e of
        None \<Rightarrow> None
      | Some a \<Rightarrow> (case lookup (blocks s) a of Some (Buf bs) \<Rightarrow> Some bs | _ \<Rightarrow> None))"

text \<open>
  The bytes \<open>esl\<close> start with a well-formed signature list of \<open>N\<close> entries: the
  per-entry size is larger than the 16-byte entry header, the declared list size is
  the 28-byte list header, the announced signature header and \<open>N\<close> entries, and the
  list lies within the bytes.
\<close>

definition esl_well_formed :: "u8 list \<Rightarrow> nat \<Rightarrow> bool" where
  "esl_well_formed esl N \<longleftrightarrow>
     16 < unat (esl_signature_size esl)
     \<and> unat (esl_signature_list_size esl)
         = 28 + unat (esl_signature_header_size esl) + N * unat (esl_signature_size esl)
     \<and> unat (esl_signature_list_size esl) \<le> length esl"

text \<open>
  The entries such a list holds, in order: each with the type GUID of the list header,
  the payload size (the per-entry size less the entry header) and the payload bytes.
\<close>

definition esl_entries :: "u8 list \<Rightarrow> nat \<Rightarrow> (u8 list option \<times> size_t option \<times> u8 list option) list" where
  "esl_entries esl N =
     map (\<lambda>i. (Some (esl_signature_type esl), Some (esl_signature_size esl - 16),
               Some (payload esl (28 + unat (esl_signature_header_size esl))
                       (unat (esl_signature_size esl)) i)))
       [0 ..< N]"

text \<open>
  A signature list on its own whose declared size is exactly its length; the number of
  its entries follows from its header.
\<close>

definition esl_count :: "u8 list \<Rightarrow> nat" where
  "esl_count esl =
     (unat (esl_signature_list_size esl) - 28 - unat (esl_signature_header_size esl))
       div unat (esl_signature_size esl)"

definition esl_exact :: "u8 list \<Rightarrow> bool" where
  "esl_exact esl \<longleftrightarrow>
     esl_well_formed esl (esl_count esl) \<and> unat (esl_signature_list_size esl) = length esl"

text \<open>
  The buffers an array of entries points to: the \<open>data\<close> pointers that were
  assigned and are not null, in the order of the entries.
\<close>

definition buffers :: "grub_pks_sd list \<Rightarrow> addr list" where
  "buffers zs =
     filter (\<lambda>a. a \<noteq> 0) (concat (map (\<lambda>z. case data z of None \<Rightarrow> [] | Some a \<Rightarrow> [a]) zs))"

text \<open>
  An array of entries that the teardown can release: every \<open>data\<close> pointer was
  assigned, and those that are not null point to live byte buffers, no two to the
  same.
\<close>

definition releasable :: "machine \<Rightarrow> grub_pks_sd list \<Rightarrow> bool" where
  "releasable s zs \<longleftrightarrow>
     (\<forall>z \<in> set zs. data z \<noteq> None)
     \<and> distinct (buffers zs)
     \<and> (\<forall>a \<in> set (buffers zs). \<exists>bs. lookup (blocks s) a = Some (Buf bs))"

text \<open>
  The outcome of appending to the array \<open>xs\<close> at \<open>sd\<close>: in \<open>s'\<close> the array at \<open>p'\<close> is
  \<open>xs\<close> followed by new entries that stand for \<open>views\<close>. Every new entry has an
  assigned \<open>data\<close> pointer, and those that are not null point to live buffers that
  did not exist before, no two to the same. Nothing else that did not exist before is
  live: of the blocks allocated since, only the array and these buffers remain. Every
  block that existed before, but for the old array, is as it was, and the old array
  is freed if the array has moved. Two requests to the allocator were made for each
  new entry, no fault was raised and no static variable has changed.
\<close>

definition appended ::
  "machine \<Rightarrow> addr \<Rightarrow> grub_pks_sd list \<Rightarrow> machine \<Rightarrow> addr \<Rightarrow> grub_pks_sd list
     \<Rightarrow> (u8 list option \<times> size_t option \<times> u8 list option) list \<Rightarrow> bool" where
  "appended s sd xs s' p' ys views \<longleftrightarrow>
     (if p' = 0 then xs @ ys = [] else lookup (blocks s') p' = Some (Slots (xs @ ys)))
     \<and> map (sd_view s') ys = views
     \<and> (\<forall>y \<in> set ys. data y \<noteq> None)
     \<and> distinct (buffers ys)
     \<and> (\<forall>a \<in> set (buffers ys). length (blocks s) < a \<and> (\<exists>bs. lookup (blocks s') a = Some (Buf bs)))
     \<and> (\<forall>c. length (blocks s) < c \<longrightarrow> lookup (blocks s') c \<noteq> None \<longrightarrow> c = p' \<or> c \<in> set (buffers ys))
     \<and> (\<forall>a \<le> length (blocks s). a \<noteq> sd \<longrightarrow> lookup (blocks s') a = lookup (blocks s) a)
     \<and> (p' \<noteq> sd \<longrightarrow> lookup (blocks s') sd = None)
     \<and> sd \<le> length (blocks s)
     \<and> length (blocks s) \<le> length (blocks s')
     \<and> (p' = sd \<or> length (blocks s) < p')
     \<and> plan s' = drop (2 * length ys) (plan s)
     \<and> fault s' = fault s \<and> statics s' = statics s"

text \<open>
  A signature list of two entries of 17 bytes: type GUID bytes \<open>t\<close>, declared size 62,
  no signature header, owner GUID bytes 9, payloads \<open>[a]\<close> and \<open>[b]\<close>.
\<close>

definition sample_esl :: "u8 \<Rightarrow> u8 \<Rightarrow> u8 \<Rightarrow> u8 list" where
  "sample_esl t a b =
     replicate 16 t @ [62, 0, 0, 0] @ [0, 0, 0, 0] @ [17, 0, 0, 0]
       @ (replicate 16 9 @ [a]) @ (replicate 16 9 @ [b])"


text \<open>
  The answers of a firmware that holds the bytes \<open>bytes\<close> in the secure boot variable
  of type \<open>ty\<close> and does not have the other variable.
\<close>

definition holding :: "u32 \<Rightarrow> u8 list \<Rightarrow> u32 \<Rightarrow> int \<times> u8 list" where
  "holding ty bytes t = (if t = ty then (0, bytes) else (IEEE1275_CELL_NOT_FOUND, []))"


text \<open>
  A state in which the allow-list holds one entry: the array at address 1, the
  payload buffer of its entry at address 2.
\<close>

definition loaded_one :: "bool list \<Rightarrow> machine" where
  "loaded_one answers =
     (boot answers)\<lparr>blocks := [Some (Slots [new_entry (replicate 16 3) 1 2]), Some (Buf [5])],
                     pks_keystore := pks_keystore_zero\<lparr>db := 1, db_entries := 1\<rparr>\<rparr>"

section \<open>Properties\<close>

subsection \<open>Teardown\<close>

lemma grub_free_null: "grub_free 0 s = s"
  by (simp add: grub_free_def)

lemma tmp_free_zero:
  "grub_pks_tmp_free (s\<lparr>pks_keystore := pks_keystore_zero\<rparr>) = s\<lparr>pks_keystore := pks_keystore_zero\<rparr>"
  by (simp add: grub_pks_tmp_free_def Let_def pks_keystore_zero_def grub_free_null)

lemma tmp_free_keystore: "pks_keystore (grub_pks_tmp_free s) = pks_keystore_zero"
  by (simp add: grub_pks_tmp_free_def Let_def)

lemma use_free_entry_data: "pks_use_keystore (free_entry_data p s i) = pks_use_keystore s"
  by (simp add: free_entry_data_def grub_free_def split: option.splits block.splits)

lemma use_fold: "pks_use_keystore (foldl (free_entry_data p) s is) = pks_use_keystore s"
  by (induction "is" arbitrary: s) (simp_all add: use_free_entry_data)

lemma use_tmp_free: "pks_use_keystore (grub_pks_tmp_free s) = pks_use_keystore s"
  by (simp add: grub_pks_tmp_free_def Let_def use_fold grub_free_def)

text \<open>
  C8, as the code has it. \<^verbatim>\<open>grub_pks_tmp_free\<close> is idempotent. After one call,
  from any state, the keystore structure has the value of its initialiser (both array
  pointers null, both counts zero, \<open>use_static_keys\<close> false); a second call returns
  the very same state, so it frees nothing and changes no block; and a call on a
  keystore that already has that value changes nothing at all. It does not disable
  the keystore: the variable \<^verbatim>\<open>pks_use_keystore\<close>, which decides what
  \<^verbatim>\<open>grub_pks_get_keystore\<close> returns, is not written by this function and keeps
  the value it had.
\<close>

theorem grub_pks_tmp_free_idempotent:
  "pks_keystore (grub_pks_tmp_free s) = pks_keystore_zero
   \<and> pks_use_keystore (grub_pks_tmp_free s) = pks_use_keystore s
   \<and> grub_pks_tmp_free (grub_pks_tmp_free s) = grub_pks_tmp_free s
   \<and> freed (grub_pks_tmp_free (grub_pks_tmp_free s)) = freed (grub_pks_tmp_free s)
   \<and> blocks (grub_pks_tmp_free (grub_pks_tmp_free s)) = blocks (grub_pks_tmp_free s)
   \<and> grub_pks_tmp_free (s\<lparr>pks_keystore := pks_keystore_zero\<rparr>) = s\<lparr>pks_keystore := pks_keystore_zero\<rparr>"
proof -
  have "grub_pks_tmp_free s = (grub_pks_tmp_free s)\<lparr>pks_keystore := pks_keystore_zero\<rparr>"
    by (simp add: grub_pks_tmp_free_def Let_def)
  then have "grub_pks_tmp_free (grub_pks_tmp_free s) = grub_pks_tmp_free s"
    using tmp_free_zero [of "grub_pks_tmp_free s"] by simp
  moreover have "pks_use_keystore (grub_pks_tmp_free s) = pks_use_keystore s"
    by (rule use_tmp_free)
  ultimately show ?thesis
    by (simp add: tmp_free_keystore tmp_free_zero)
qed

subsection \<open>Validation of the list header\<close>

text \<open>
  C5. \<^verbatim>\<open>esl_to_esd\<close> returns the structural error (\<^verbatim>\<open>GRUB_ERR_BUG\<close>, "invalid
  ESL") whenever the length the caller asserts is smaller than the 28-byte list
  header, or the list size decoded from the header is smaller than 28, or it is larger
  than the asserted length. In each case the array pointer, the entry count and the
  asserted length come back as they went in, and no heap block is allocated, changed
  or freed.
\<close>

theorem esl_to_esd_rejects:
  assumes "next_esl < sizeof_grub_esl_t \<or>
     (\<exists>esl. esl_data = Some esl \<and>
        (esl_signature_list_size esl < sizeof_grub_esl_t \<or> next_esl < esl_signature_list_size esl))"
  shows "\<exists>s'. esl_to_esd esl_data next_esl sd n s = Some (GRUB_ERR_BUG, next_esl, sd, n, s')
      \<and> blocks s' = blocks s \<and> freed s' = freed s \<and> pks_keystore s' = pks_keystore s
      \<and> grub_errno s' = GRUB_ERR_BUG"
  using assms
  by (auto simp add: esl_to_esd_def grub_error_def Let_def)

theorem esl_to_esd_rejects_witness:
  "(28 :: size_t) < esl_signature_list_size (replicate 16 0 @ [100, 0, 0, 0, 0, 0, 0, 0, 17, 0, 0, 0])
   \<and> (\<exists>s'. esl_to_esd (Some (replicate 16 0 @ [100, 0, 0, 0, 0, 0, 0, 0, 17, 0, 0, 0])) 28 0 0 (boot [])
            = Some (GRUB_ERR_BUG, 28, 0, 0, s')
      \<and> blocks s' = [] \<and> freed s' = [] \<and> pks_keystore s' = pks_keystore_zero
      \<and> grub_errno s' = GRUB_ERR_BUG)"
proof -
  have h: "(28 :: size_t) < esl_signature_list_size (replicate 16 0 @ [100, 0, 0, 0, 0, 0, 0, 0, 17, 0, 0, 0])"
    by (simp add: esl_signature_list_size_def grub_le_to_cpu32_def)
  show ?thesis
    using h esl_to_esd_rejects [of 28 "Some (replicate 16 0 @ [100, 0, 0, 0, 0, 0, 0, 0, 17, 0, 0, 0])" 0 0 "boot []"]
    by (simp add: boot_def)
qed

subsection \<open>The mode probe\<close>

lemma written_len_eq_1:
  "((of_nat (length (written sz bytes)) :: u32) = 1) = (length (written sz bytes) = 1)"
proof -
  have "length (written sz bytes) \<le> unat sz" by (simp add: written_def)
  then have u: "unat (of_nat (length (written sz bytes)) :: u32) = length (written sz bytes)"
    by (rule le_unat_uoi)
  show ?thesis
  proof
    assume "(of_nat (length (written sz bytes)) :: u32) = 1"
    then show "length (written sz bytes) = 1" using u by simp
  next
    assume "length (written sz bytes) = 1"
    then show "(of_nat (length (written sz bytes)) :: u32) = 1" by simp
  qed
qed

lemma sbversion_ok:
  assumes al: "alloc_succeeds s"
    and rd: "grub_ieee1275_pks_read_object fw PKS_CONSUMER_FW SB_VERSION_KEY_NAME SB_VERSION_KEY_LEN (pks_max_object_size s) = (rc, bytes)"
    and rc: "0 \<le> rc"
  shows "read_sbversion_from_pks fw s =
    (let wr = written (pks_max_object_size s) bytes;
         s2 = s\<lparr>blocks := blocks s @ [Some (Buf wr)], plan := tl (plan s)\<rparr>
     in if length wr = 1 \<and> hd wr < 2 then (GRUB_ERR_NONE, Suc (length (blocks s)), s2)
        else (GRUB_ERR_BAD_NUMBER, Suc (length (blocks s)), s2\<lparr>grub_errno := GRUB_ERR_BAD_NUMBER\<rparr>))"
  using al rd rc
  apply (simp add: read_sbversion_from_pks_def grub_malloc_def Let_def grub_error_def
      written_len_eq_1 first_byte_def lookup_def store_def)
  apply (cases "written (pks_max_object_size s) bytes")
   apply (auto simp add: not_le)
  done

lemma sbversion_fail:
  assumes rd: "grub_ieee1275_pks_read_object fw PKS_CONSUMER_FW SB_VERSION_KEY_NAME SB_VERSION_KEY_LEN (pks_max_object_size s) = (rc, bytes)"
    and "\<not> alloc_succeeds s \<or> rc < 0"
  shows "fst (read_sbversion_from_pks fw s) \<noteq> GRUB_ERR_NONE"
  using assms
  by (auto simp add: read_sbversion_from_pks_def grub_malloc_def Let_def grub_error_def)

lemma grub_free_errno: "grub_errno (grub_free p s) = grub_errno s"
  by (simp add: grub_free_def)

lemma present_reached:
  assumes test: "0 \<le> grub_ieee1275_test fw PKS_MAX_OBJ_SIZE"
    and mx: "grub_ieee1275_pks_max_object_size fw = (rc0, sz)" and rc0: "0 \<le> rc0"
    and al: "alloc_succeeds s"
    and rd: "grub_ieee1275_pks_read_object fw PKS_CONSUMER_FW SB_VERSION_KEY_NAME SB_VERSION_KEY_LEN sz = (rc, bytes)"
    and rc: "0 \<le> rc"
  shows "fst (is_pks_present fw s) = (written sz bytes = [1])"
    and "grub_errno (snd (is_pks_present fw s)) =
           (if length (written sz bytes) = 1 \<and> hd (written sz bytes) < 2 then grub_errno s
            else GRUB_ERR_BAD_NUMBER)"
proof -
  let ?s1 = "s\<lparr>pks_max_object_size := sz\<rparr>"
  have al1: "alloc_succeeds ?s1" using al by (simp add: alloc_succeeds_def)
  have rd1: "grub_ieee1275_pks_read_object fw PKS_CONSUMER_FW SB_VERSION_KEY_NAME SB_VERSION_KEY_LEN (pks_max_object_size ?s1) = (rc, bytes)"
    using rd by simp
  note sv = sbversion_ok [OF al1 rd1 rc]
  show "fst (is_pks_present fw s) = (written sz bytes = [1])"
    using test mx rc0 sv
    apply (simp add: is_pks_present_def Let_def not_less first_byte_def lookup_def)
    apply (cases "written sz bytes")
     apply (auto simp add: grub_free_def word_le_nat_alt word_less_nat_alt)
    done
  show "grub_errno (snd (is_pks_present fw s)) =
           (if length (written sz bytes) = 1 \<and> hd (written sz bytes) < 2 then grub_errno s
            else GRUB_ERR_BAD_NUMBER)"
    using test mx rc0 sv
    by (auto simp add: is_pks_present_def Let_def grub_free_errno)
qed

lemma present_not_reached:
  assumes mx: "grub_ieee1275_pks_max_object_size fw = (rc0, sz)"
    and rd: "grub_ieee1275_pks_read_object fw PKS_CONSUMER_FW SB_VERSION_KEY_NAME SB_VERSION_KEY_LEN sz = (rc, bytes)"
    and nr: "\<not> (0 \<le> grub_ieee1275_test fw PKS_MAX_OBJ_SIZE \<and> 0 \<le> rc0 \<and> alloc_succeeds s \<and> 0 \<le> rc)"
  shows "\<not> fst (is_pks_present fw s)"
proof -
  let ?s1 = "s\<lparr>pks_max_object_size := sz\<rparr>"
  have rd1: "grub_ieee1275_pks_read_object fw PKS_CONSUMER_FW SB_VERSION_KEY_NAME SB_VERSION_KEY_LEN (pks_max_object_size ?s1) = (rc, bytes)"
    using rd by simp
  have al: "alloc_succeeds ?s1 = alloc_succeeds s" by (simp add: alloc_succeeds_def)
  show ?thesis
  proof (cases "0 \<le> grub_ieee1275_test fw PKS_MAX_OBJ_SIZE \<and> 0 \<le> rc0")
    case False
    then show ?thesis using mx
      by (auto simp add: is_pks_present_def Let_def grub_error_def split: prod.splits)
  next
    case True
    then have "\<not> alloc_succeeds ?s1 \<or> rc < 0" using nr al by auto
    from sbversion_fail [OF rd1 this] show ?thesis using mx True
      by (auto simp add: is_pks_present_def Let_def split: prod.splits)
  qed
qed

text \<open>
  C6. The mode probe \<^verbatim>\<open>is_pks_present\<close> returns true exactly when the read of the
  version object is made and succeeds (the capability probe and the size query
  succeed, the buffer is allocated, the read returns a code that is not negative) and the
  firmware wrote exactly one byte of value 1. When the read is made and succeeds and
  the one byte written is 0, the probe returns false and \<^verbatim>\<open>grub_errno\<close> is as it
  was; when the length written is not 1, or the one byte is 2 or more, the probe
  returns false and the malformed-version error \<^verbatim>\<open>GRUB_ERR_BAD_NUMBER\<close> is
  recorded.
\<close>

theorem is_pks_present_version:
  "(let (rc0, sz) = grub_ieee1275_pks_max_object_size fw;
        (rc, bytes) = grub_ieee1275_pks_read_object fw PKS_CONSUMER_FW SB_VERSION_KEY_NAME
                        SB_VERSION_KEY_LEN sz;
        ver = written sz bytes;
        reached = (0 \<le> grub_ieee1275_test fw PKS_MAX_OBJ_SIZE \<and> 0 \<le> rc0 \<and> alloc_succeeds s
                   \<and> 0 \<le> rc);
        (ret, s') = is_pks_present fw s
    in (ret \<longleftrightarrow> reached \<and> ver = [1])
       \<and> (reached \<and> ver = [0] \<longrightarrow> \<not> ret \<and> grub_errno s' = grub_errno s)
       \<and> (reached \<and> (length ver \<noteq> 1 \<or> (\<exists>b. ver = [b] \<and> 2 \<le> b))
            \<longrightarrow> \<not> ret \<and> grub_errno s' = GRUB_ERR_BAD_NUMBER))"
proof -
  obtain rc0 sz where mx: "grub_ieee1275_pks_max_object_size fw = (rc0, sz)" by (cases "grub_ieee1275_pks_max_object_size fw")
  obtain rc bytes where rd: "grub_ieee1275_pks_read_object fw PKS_CONSUMER_FW SB_VERSION_KEY_NAME SB_VERSION_KEY_LEN sz = (rc, bytes)"
    by (cases "grub_ieee1275_pks_read_object fw PKS_CONSUMER_FW SB_VERSION_KEY_NAME SB_VERSION_KEY_LEN sz")
  obtain ret s' where r: "is_pks_present fw s = (ret, s')" by (cases "is_pks_present fw s")
  show ?thesis
  proof (cases "0 \<le> grub_ieee1275_test fw PKS_MAX_OBJ_SIZE \<and> 0 \<le> rc0 \<and> alloc_succeeds s \<and> 0 \<le> rc")
    case False
    from present_not_reached [OF mx rd False] show ?thesis using mx rd r False by (auto simp add: Let_def)
  next
    case True
    then have t: "0 \<le> grub_ieee1275_test fw PKS_MAX_OBJ_SIZE" and r0: "0 \<le> rc0"
      and al: "alloc_succeeds s" and rc: "0 \<le> rc" by auto
    from present_reached [OF t mx r0 al rd rc] show ?thesis using mx rd r True
      by (auto simp add: not_less Let_def word_le_nat_alt word_less_nat_alt)
  qed
qed

theorem is_pks_present_version_witness:
  "fst (is_pks_present (sample_fw [1] no_vars) (boot []))
   \<and> \<not> fst (is_pks_present (sample_fw [0] no_vars) (boot []))
   \<and> grub_errno (snd (is_pks_present (sample_fw [0] no_vars) (boot []))) = GRUB_ERR_NONE
   \<and> \<not> fst (is_pks_present (sample_fw [2] no_vars) (boot []))
   \<and> grub_errno (snd (is_pks_present (sample_fw [2] no_vars) (boot []))) = GRUB_ERR_BAD_NUMBER
   \<and> \<not> fst (is_pks_present (sample_fw [1, 1] no_vars) (boot []))
   \<and> grub_errno (snd (is_pks_present (sample_fw [1, 1] no_vars) (boot []))) = GRUB_ERR_BAD_NUMBER"
  using is_pks_present_version [of "sample_fw [1] no_vars" "boot []"]
    is_pks_present_version [of "sample_fw [0] no_vars" "boot []"]
    is_pks_present_version [of "sample_fw [2] no_vars" "boot []"]
    is_pks_present_version [of "sample_fw [1, 1] no_vars" "boot []"]
  by (simp add: sample_fw_def boot_def written_def alloc_succeeds_def Let_def case_prod_beta)

subsection \<open>The loop over the entries of a list\<close>

lemma plan_grub_free: "plan (grub_free p s) = plan s"
  by (simp add: grub_free_def)

lemma plan_slot_assign: "plan (slot_assign p i f s) = plan s"
  by (simp add: slot_assign_def split: option.splits block.splits)

lemma plan_grub_memcpy: "plan (grub_memcpy d src n s) = plan s"
  by (simp add: grub_memcpy_def split: option.splits)

lemma realloc_succeeds:
  assumes "alloc_succeeds s"
  shows "fst (grub_realloc p n s) = Suc (length (blocks s))"
    and "plan (snd (grub_realloc p n s)) = tl (plan s)"
  using assms
  by (simp_all add: grub_realloc_def Let_def plan_grub_free split: option.splits block.splits)

lemma malloc_succeeds:
  assumes "alloc_succeeds s"
  shows "fst (grub_malloc n s) \<noteq> 0"
    and "plan (snd (grub_malloc n s)) = tl (plan s)"
  using assms by (simp_all add: grub_malloc_def)

lemma round_continues:
  assumes a1: "alloc_succeeds s"
    and a2: "alloc_succeeds (s\<lparr>plan := tl (plan s)\<rparr>)"
  shows "\<exists>s1. esl_to_esd_round esl_data signature_size guidp v s =
           Inr (v\<lparr>signature := Suc (length (blocks s)), entries := entries v + 1,
                  esl_size := esl_size v - signature_size,
                  offset := offset v + signature_size\<rparr>, s1)
         \<and> plan s1 = tl (tl (plan s))"
proof -
  obtain p s1 where r: "grub_realloc (signature v) ((entries v + 1) * sizeof_grub_pks_sd_t) s = (p, s1)"
    by (cases "grub_realloc (signature v) ((entries v + 1) * sizeof_grub_pks_sd_t) s")
  from realloc_succeeds [OF a1, of "signature v" "(entries v + 1) * sizeof_grub_pks_sd_t"] r
  have p: "p = Suc (length (blocks s))" and pl1: "plan s1 = tl (plan s)" by simp_all
  have a2': "alloc_succeeds s1" using a2 pl1 by (simp add: alloc_succeeds_def)
  obtain d s2 where m: "grub_malloc ((signature_size - sizeof_grub_esd_t) * 1) s1 = (d, s2)"
    by (cases "grub_malloc ((signature_size - sizeof_grub_esd_t) * 1) s1")
  from malloc_succeeds [OF a2', of "(signature_size - sizeof_grub_esd_t) * 1"] m
  have d: "d \<noteq> 0" and pl2: "plan s2 = tl (plan s1)" by simp_all
  show ?thesis
    using r m p d pl1 pl2
    by (simp add: esl_to_esd_round_def Let_def plan_slot_assign plan_grub_memcpy)
qed

lemma allocs_succeed_2:
  assumes "allocs_succeed (Suc (Suc k)) s"
  shows "alloc_succeeds s" and "alloc_succeeds (s\<lparr>plan := tl (plan s)\<rparr>)"
    and "plan s1 = tl (tl (plan s)) \<Longrightarrow> allocs_succeed k s1"
proof -
  show "alloc_succeeds s" using assms
    by (cases "plan s") (simp_all add: allocs_succeed_def alloc_succeeds_def)
  show "alloc_succeeds (s\<lparr>plan := tl (plan s)\<rparr>)" using assms
    by (cases "plan s"; cases "tl (plan s)") (simp_all add: allocs_succeed_def alloc_succeeds_def)
  show "plan s1 = tl (tl (plan s)) \<Longrightarrow> allocs_succeed k s1" using assms
    by (cases "plan s"; cases "tl (plan s)") (simp_all add: allocs_succeed_def)
qed

text \<open>
  C9. When the length of the entry region is an exact multiple \<open>N\<close> of a per-entry
  size that is not zero (and the \<open>2 * N\<close> allocations the rounds make succeed), the
  loop of \<^verbatim>\<open>_esl_to_esd\<close> returns: it leaves through its condition with the
  remaining length \<open>esl_size\<close> equal to zero, after exactly \<open>N\<close> rounds (each round
  adds one to \<open>entries\<close> and the per-entry size to \<open>offset\<close>), and reports success.
\<close>

theorem esl_to_esd_loop_terminates:
  assumes sz: "signature_size \<noteq> 0"
    and mult: "unat (esl_size v) = N * unat signature_size"
    and allocs: "allocs_succeed (2 * N) s"
  shows "\<exists>v' s'. esl_to_esd_loop esl_data signature_size guidp v s = Some (GRUB_ERR_NONE, v', s')
           \<and> esl_size v' = 0
           \<and> entries v' = entries v + of_nat N
           \<and> offset v' = offset v + of_nat N * signature_size
           \<and> pks_sd v' = signature v' \<and> pks_sd_entries v' = entries v'"
  using mult allocs
proof (induction N arbitrary: v s)
  case 0
  then have "esl_size v = 0" by (simp add: unat_eq_zero)
  then show ?case
    by (subst esl_to_esd_loop.simps) simp
next
  case (Suc N)
  have pos: "0 < unat signature_size" using sz by (simp add: unat_gt_0)
  have gt: "esl_size v > 0" using Suc.prems(1) pos by (simp add: word_less_nat_alt)
  have le: "signature_size \<le> esl_size v" using Suc.prems(1) by (simp add: word_le_nat_alt)
  have al: "allocs_succeed (Suc (Suc (2 * N))) s" using Suc.prems(2) by simp
  from round_continues [OF allocs_succeed_2(1) [OF al] allocs_succeed_2(2) [OF al]]
  obtain s1 where r: "esl_to_esd_round esl_data signature_size guidp v s =
           Inr (v\<lparr>signature := Suc (length (blocks s)), entries := entries v + 1,
                  esl_size := esl_size v - signature_size,
                  offset := offset v + signature_size\<rparr>, s1)"
    and pl: "plan s1 = tl (tl (plan s))" by blast
  let ?v1 = "v\<lparr>signature := Suc (length (blocks s)), entries := entries v + 1,
                  esl_size := esl_size v - signature_size,
                  offset := offset v + signature_size\<rparr>"
  have m1: "unat (esl_size ?v1) = N * unat signature_size"
    using Suc.prems(1) le by (simp add: unat_sub)
  have al1: "allocs_succeed (2 * N) s1" using allocs_succeed_2(3) [OF al pl] .
  from Suc.IH [OF m1 al1] obtain v' s' where
    h: "esl_to_esd_loop esl_data signature_size guidp ?v1 s1 = Some (GRUB_ERR_NONE, v', s')"
      "esl_size v' = 0" "entries v' = entries ?v1 + of_nat N"
      "offset v' = offset ?v1 + of_nat N * signature_size"
      "pks_sd v' = signature v'" "pks_sd_entries v' = entries v'" by blast
  have "esl_to_esd_loop esl_data signature_size guidp v s = Some (GRUB_ERR_NONE, v', s')"
    using gt r h(1) by (subst esl_to_esd_loop.simps) simp
  then show ?case using h by (simp add: algebra_simps)
qed

theorem esl_to_esd_loop_terminates_witness:
  "(17 :: size_t) \<noteq> 0 \<and> unat (34 :: size_t) = 2 * unat (17 :: size_t)
   \<and> allocs_succeed (2 * 2) (boot [])
   \<and> (\<exists>v' s'. esl_to_esd_loop (replicate 34 0) 17 (replicate 16 7)
                  \<lparr>signature = 0, entries = 0, esl_size = 34, offset = 0,
                   pks_sd = 0, pks_sd_entries = 0\<rparr> (boot [])
                = Some (GRUB_ERR_NONE, v', s')
         \<and> esl_size v' = 0 \<and> entries v' = 2 \<and> offset v' = 34)"
  using esl_to_esd_loop_terminates [of 17
      "\<lparr>signature = 0, entries = 0, esl_size = 34, offset = 0, pks_sd = 0, pks_sd_entries = 0\<rparr>"
      2 "boot []" "replicate 34 0" "replicate 16 7"]
  by (auto simp add: allocs_succeed_def boot_def)

subsection \<open>The parser leaves the static variables alone\<close>

lemma statics_grub_free: "statics (grub_free p s) = statics s"
  by (simp add: statics_def grub_free_def)

lemma statics_slot_assign: "statics (slot_assign p i f s) = statics s"
  by (simp add: statics_def slot_assign_def split: option.splits block.splits)

lemma statics_grub_memcpy: "statics (grub_memcpy d src n s) = statics s"
  by (simp add: statics_def grub_memcpy_def split: option.splits)

lemma statics_grub_malloc: "statics (snd (grub_malloc n s)) = statics s"
  by (simp add: statics_def grub_malloc_def)

lemma statics_grub_realloc: "statics (snd (grub_realloc p n s)) = statics s"
  using statics_grub_free
  by (auto simp add: statics_def grub_realloc_def Let_def split: option.splits block.splits)

lemma statics_grub_error: "statics (snd (grub_error e s)) = statics s"
  by (simp add: statics_def grub_error_def)

lemma statics_errno: "statics (s\<lparr>grub_errno := e\<rparr>) = statics s"
  by (simp add: statics_def)

lemma statics_round:
  "esl_to_esd_round esl_data signature_size guidp v s = Inl (e, v', s') \<Longrightarrow> statics s' = statics s"
  "esl_to_esd_round esl_data signature_size guidp v s = Inr (v', s') \<Longrightarrow> statics s' = statics s"
proof -
  obtain p s1 where r: "grub_realloc (signature v) ((entries v + 1) * sizeof_grub_pks_sd_t) s = (p, s1)"
    by (cases "grub_realloc (signature v) ((entries v + 1) * sizeof_grub_pks_sd_t) s")
  obtain d s2 where m: "grub_malloc ((signature_size - sizeof_grub_esd_t) * 1) s1 = (d, s2)"
    by (cases "grub_malloc ((signature_size - sizeof_grub_esd_t) * 1) s1")
  have s1: "statics s1 = statics s" using statics_grub_realloc [of "signature v" "(entries v + 1) * sizeof_grub_pks_sd_t" s] r by simp
  have s2: "statics s2 = statics s1" using statics_grub_malloc [of "(signature_size - sizeof_grub_esd_t) * 1" s1] m by simp
  show "esl_to_esd_round esl_data signature_size guidp v s = Inl (e, v', s') \<Longrightarrow> statics s' = statics s"
    using r m s1 s2
    by (auto simp add: esl_to_esd_round_def Let_def grub_error_def statics_slot_assign statics_grub_memcpy
        statics_errno split: if_splits)
  show "esl_to_esd_round esl_data signature_size guidp v s = Inr (v', s') \<Longrightarrow> statics s' = statics s"
    using r m s1 s2
    by (auto simp add: esl_to_esd_round_def Let_def grub_error_def statics_slot_assign statics_grub_memcpy
        split: if_splits)
qed

lemma statics_loop_step:
  assumes ih: "\<And>d z g v s y. f d z g v s = Some y \<Longrightarrow> statics (snd (snd y)) = statics s"
    and eq: "(if 0 < esl_size v
              then case esl_to_esd_round esl_data signature_size guidp v s of
                     Inl r \<Rightarrow> Some r
                   | Inr (v', s') \<Rightarrow> f esl_data signature_size guidp v' s'
              else Some (GRUB_ERR_NONE, v\<lparr>pks_sd := signature v, pks_sd_entries := entries v\<rparr>, s))
             = Some y"
  shows "statics (snd (snd y)) = statics s"
proof (cases "0 < esl_size v")
  case False
  then show ?thesis using eq by auto
next
  case True
  show ?thesis
  proof (cases "esl_to_esd_round esl_data signature_size guidp v s")
    case (Inl r)
    obtain e v' s' where "r = (e, v', s')" by (cases r)
    then show ?thesis
      using True Inl eq statics_round(1) [of esl_data signature_size guidp v s e v' s'] by auto
  next
    case (Inr r)
    obtain v' s' where r: "r = (v', s')" by (cases r)
    then have "f esl_data signature_size guidp v' s' = Some y" using True Inr eq by simp
    from ih [OF this] statics_round(2) [of esl_data signature_size guidp v s v' s'] Inr r
    show ?thesis by simp
  qed
qed

lemma statics_loop:
  assumes "esl_to_esd_loop esl_data signature_size guidp v s = Some y"
  shows "statics (snd (snd y)) = statics s"
  by (rule esl_to_esd_loop.raw_induct
        [where P = "\<lambda>d z g v s y. statics (snd (snd y)) = statics s", OF _ assms])
     (rule statics_loop_step; assumption)

lemma statics_esl_to_esd':
  "esl_to_esd' esl_data esl_sz signature_size guidp sd n s = Some (e, p, m, s') \<Longrightarrow> statics s' = statics s"
  by (auto simp add: esl_to_esd'_def dest: statics_loop)

lemma statics_esl_to_esd:
  "esl_to_esd esl_data next_esl sd n s = Some (e, nx, p, m, s') \<Longrightarrow> statics s' = statics s"
  by (auto simp add: esl_to_esd_def Let_def grub_error_def statics_def split: if_splits dest!: statics_esl_to_esd')

lemma statics_pks_loop_step:
  assumes ih: "\<And>d z x sd n s y. f d z x sd n s = Some y \<Longrightarrow> statics (snd (snd (snd y))) = statics s"
    and eq: "Option.bind (esl_to_esd esl_data next_esl sd n s)
       (\<lambda>(rc, next_esl1, sd1, n1, s1).
          if rc \<noteq> GRUB_ERR_NONE then Some (rc, sd1, n1, s1)
          else
            let esl_data' = map_option (drop (unat next_esl1)) esl_data;
                esl_sz' = esl_sz - next_esl1;
                next_esl2 = esl_sz'
            in if esl_sz' > 0
               then f esl_data' esl_sz' next_esl2 sd1 n1 s1
               else Some (rc, sd1, n1, s1)) = Some y"
  shows "statics (snd (snd (snd y))) = statics s"
proof -
  from eq obtain rc nx sd1 n1 s1 where
    e: "esl_to_esd esl_data next_esl sd n s = Some (rc, nx, sd1, n1, s1)"
    by (cases "esl_to_esd esl_data next_esl sd n s") auto
  have s1: "statics s1 = statics s" using statics_esl_to_esd [OF e] .
  show ?thesis
  proof (cases "rc \<noteq> GRUB_ERR_NONE \<or> \<not> 0 < esl_sz - nx")
    case True
    then have "y = (rc, sd1, n1, s1)" using eq e by (auto simp add: Let_def split: if_splits)
    then show ?thesis using s1 by simp
  next
    case False
    then have "f (map_option (drop (unat nx)) esl_data) (esl_sz - nx) (esl_sz - nx) sd1 n1 s1 = Some y"
      using eq e by (simp add: Let_def)
    from ih [OF this] s1 show ?thesis by simp
  qed
qed

lemma statics_pks_loop:
  assumes "pks_sd_from_esl_loop esl_data esl_sz next_esl sd n s = Some y"
  shows "statics (snd (snd (snd y))) = statics s"
  by (rule pks_sd_from_esl_loop.raw_induct
        [where P = "\<lambda>d z x sd n s y. statics (snd (snd (snd y))) = statics s", OF _ assms])
     (rule statics_pks_loop_step; assumption)

lemma statics_blocks: "statics (s\<lparr>blocks := b\<rparr>) = statics s"
  by (simp add: statics_def)

lemma statics_read_sbvar:
  assumes "read_sbvar_from_pks fw fl ty sd n s = Some (e, p, m, s')"
  shows "statics s' = statics s"
proof -
  obtain a s1 where m: "grub_malloc (pks_max_object_size s) s = (a, s1)"
    by (cases "grub_malloc (pks_max_object_size s) s")
  have s1: "statics s1 = statics s" using statics_grub_malloc [of "pks_max_object_size s" s] m by simp
  obtain rc bytes where f: "grub_ieee1275_pks_read_sbvar fw fl ty (pks_max_object_size s1) = (rc, bytes)"
    by (cases "grub_ieee1275_pks_read_sbvar fw fl ty (pks_max_object_size s1)")
  show ?thesis
    using assms m f s1
    by (auto simp add: read_sbvar_from_pks_def Let_def grub_error_def statics_errno statics_grub_free
        statics_blocks pks_sd_from_esl_def
        split: if_splits dest!: statics_pks_loop)
qed

subsection \<open>The keystore manager\<close>

lemma init_unfold:
  assumes pres: "is_pks_present fw s = (True, s1)"
    and dbr: "read_sbvar_from_pks fw 0 PKS_SBVAR_DB (db (pks_keystore s1)) (db_entries (pks_keystore s1)) s1
              = Some (rc, p, n, s2)"
  shows "grub_pks_keystore_init fw s =
    (let s3 = s2\<lparr>pks_keystore := (pks_keystore s1)\<lparr>db := p, db_entries := n\<rparr>\<rparr> in
     if rc = GRUB_ERR_NONE \<or> rc = GRUB_ERR_FILE_NOT_FOUND \<or> rc = GRUB_ERR_BAD_NUMBER
     then
       (let s4 = (if rc = GRUB_ERR_NONE then s3
                  else s3\<lparr>pks_keystore := (pks_keystore s3)\<lparr>use_static_keys := True\<rparr>\<rparr>) in
        case read_sbvar_from_pks fw 0 PKS_SBVAR_DBX (dbx (pks_keystore s4)) (dbx_entries (pks_keystore s4)) s4 of
          None \<Rightarrow> None
        | Some (rc2, p2, n2, s5) \<Rightarrow>
            let s6 = s5\<lparr>pks_keystore := (pks_keystore s4)\<lparr>dbx := p2, dbx_entries := n2\<rparr>\<rparr> in
            if rc2 = GRUB_ERR_NONE \<or> rc2 = GRUB_ERR_FILE_NOT_FOUND \<or> rc2 = GRUB_ERR_BAD_NUMBER
            then Some (s6\<lparr>pks_use_keystore := True\<rparr>)
            else Some ((grub_pks_tmp_free s6)\<lparr>pks_use_keystore := True\<rparr>))
     else Some ((grub_pks_tmp_free s3)\<lparr>pks_use_keystore := True\<rparr>))"
proof -
  have k2: "pks_keystore s2 = pks_keystore s1" using statics_read_sbvar [OF dbr] by (simp add: statics_def)
  show ?thesis
  proof (cases "rc = GRUB_ERR_NONE \<or> rc = GRUB_ERR_FILE_NOT_FOUND \<or> rc = GRUB_ERR_BAD_NUMBER")
    case False
    then show ?thesis using pres dbr k2
      by (simp add: grub_pks_keystore_init_def Let_def)
  next
    case True
    let ?s3 = "s2\<lparr>pks_keystore := (pks_keystore s1)\<lparr>db := p, db_entries := n\<rparr>\<rparr>"
    let ?s4 = "(if rc = GRUB_ERR_NONE then ?s3
                  else ?s3\<lparr>pks_keystore := (pks_keystore ?s3)\<lparr>use_static_keys := True\<rparr>\<rparr>)"
    show ?thesis
    proof (cases "read_sbvar_from_pks fw 0 PKS_SBVAR_DBX (dbx (pks_keystore ?s4)) (dbx_entries (pks_keystore ?s4)) ?s4")
      case None
      then show ?thesis using pres dbr k2 True
        by (auto simp add: grub_pks_keystore_init_def Let_def)
    next
      case (Some r)
      obtain rc2 p2 n2 s5 where r: "r = (rc2, p2, n2, s5)" by (cases r)
      have k5: "pks_keystore s5 = pks_keystore ?s4" using statics_read_sbvar [OF Some [unfolded r]] by (simp add: statics_def)
      show ?thesis using pres dbr k2 True Some r k5
        by (auto simp add: grub_pks_keystore_init_def Let_def)
    qed
  qed
qed


lemma zero_fields:
  "db pks_keystore_zero = 0" "dbx pks_keystore_zero = 0"
  "db_entries pks_keystore_zero = 0" "dbx_entries pks_keystore_zero = 0"
  "use_static_keys pks_keystore_zero = False"
  by (simp_all add: pks_keystore_zero_def)

lemma probe_dynamic:
  assumes "alloc_succeeds (boot pl)"
  shows "is_pks_present (sample_fw [1] vars) (boot pl) =
     (True, \<lparr>blocks = [None], plan = tl pl, freed = [Suc 0], fault = False,
            grub_errno = GRUB_ERR_NONE, pks_max_object_size = 64,
            pks_keystore = pks_keystore_zero, pks_use_keystore = False\<rparr>)"
  using assms
  by (simp add: is_pks_present_def read_sbversion_from_pks_def sample_fw_def boot_def Let_def
      grub_malloc_def written_def store_def first_byte_def lookup_def
      grub_free_def word_le_nat_alt alloc_succeeds_def)

lemma read_sbvar_not_found:
  assumes al: "alloc_succeeds s"
    and fw: "grub_ieee1275_pks_read_sbvar fw fl ty (pks_max_object_size s) = (IEEE1275_CELL_NOT_FOUND, bytes)"
  shows "read_sbvar_from_pks fw fl ty sd n s =
           Some (GRUB_ERR_FILE_NOT_FOUND, sd, n,
                 s\<lparr>blocks := blocks s @ [None], plan := tl (plan s),
                   grub_errno := GRUB_ERR_FILE_NOT_FOUND,
                   freed := Suc (length (blocks s)) # freed s\<rparr>)"
  using al fw
  by (simp add: read_sbvar_from_pks_def grub_malloc_def grub_error_def Let_def
      store_def grub_free_def lookup_def)

lemma read_sbvar_empty:
  assumes al: "alloc_succeeds s"
    and fw: "grub_ieee1275_pks_read_sbvar fw fl ty (pks_max_object_size s) = (rc, bytes)"
    and rc: "0 \<le> rc"
    and em: "written (pks_max_object_size s) bytes = []"
  shows "read_sbvar_from_pks fw fl ty sd n s =
           Some (GRUB_ERR_BAD_NUMBER, sd, n,
                 s\<lparr>blocks := blocks s @ [None], plan := tl (plan s),
                   freed := Suc (length (blocks s)) # freed s\<rparr>)"
  using al fw rc em
  by (simp add: read_sbvar_from_pks_def grub_malloc_def grub_error_def Let_def
      store_def grub_free_def lookup_def IEEE1275_CELL_NOT_FOUND_def)

lemma init_no_vars:
  "grub_pks_keystore_init (sample_fw [1] no_vars) (boot []) =
     Some \<lparr>blocks = [None, None, None], plan = [], freed = [3, 2, Suc 0], fault = False,
       grub_errno = GRUB_ERR_FILE_NOT_FOUND, pks_max_object_size = 64,
       pks_keystore = pks_keystore_zero\<lparr>use_static_keys := True\<rparr>, pks_use_keystore = True\<rparr>"
proof -
  let ?s1 = "\<lparr>blocks = [None], plan = tl [], freed = [Suc 0], fault = False,
            grub_errno = GRUB_ERR_NONE, pks_max_object_size = 64,
            pks_keystore = pks_keystore_zero, pks_use_keystore = False\<rparr>"
  have pres: "is_pks_present (sample_fw [1] no_vars) (boot []) = (True, ?s1)"
    by (rule probe_dynamic) (simp add: alloc_succeeds_def boot_def)
  have nf: "grub_ieee1275_pks_read_sbvar (sample_fw [1] no_vars) fl ty m = (IEEE1275_CELL_NOT_FOUND, [])"
    for fl ty m by (simp add: sample_fw_def no_vars_def)
  have a1: "alloc_succeeds ?s1" by (simp add: alloc_succeeds_def)
  note dbr = read_sbvar_not_found [OF a1 nf, of 0 PKS_SBVAR_DB "db (pks_keystore ?s1)" "db_entries (pks_keystore ?s1)"]
  show ?thesis
    apply (simp add: init_unfold [OF pres dbr] Let_def zero_fields)
    apply (subst read_sbvar_not_found [OF _ nf])
     apply (simp add: alloc_succeeds_def)
    apply (simp add: pks_keystore_zero_def)
    done
qed

text \<open>
  The claim as the spec states it (after release the keystore is disabled) fails:
  after an initialisation in dynamic mode with neither variable in the firmware, the
  keystore is enabled; \<^verbatim>\<open>grub_pks_tmp_free\<close> then empties the structure but
  \<^verbatim>\<open>pks_use_keystore\<close> stays set, and \<^verbatim>\<open>grub_pks_get_keystore\<close> still returns
  the keystore, not the null pointer.
\<close>

theorem grub_pks_tmp_free_idempotent_counterexample:
  "map_option pks_use_keystore (grub_pks_keystore_init (sample_fw [1] no_vars) (boot [])) = Some True
   \<and> map_option (pks_use_keystore \<circ> grub_pks_tmp_free)
        (grub_pks_keystore_init (sample_fw [1] no_vars) (boot [])) = Some True
   \<and> map_option (grub_pks_get_keystore \<circ> grub_pks_tmp_free)
        (grub_pks_keystore_init (sample_fw [1] no_vars) (boot [])) = Some (Some pks_keystore_zero)"
  by (simp add: init_no_vars grub_pks_tmp_free_def Let_def grub_pks_get_keystore_def
        pks_keystore_zero_def grub_free_null)

subsection \<open>The heap after the rounds of the loop\<close>

lemma length_store: "length (store bs a b) = length bs"
  by (simp add: store_def)

lemma length_release: "length (release p bs) = length bs"
  by (simp add: release_def length_store)

lemma lookup_Some_range: "lookup bs a = Some b \<Longrightarrow> 0 < a \<and> a \<le> length bs"
  by (auto simp add: lookup_def split: if_splits)

lemma lookup_append_old: "a \<le> length bs \<Longrightarrow> lookup (bs @ cs) a = lookup bs a"
  by (auto simp add: lookup_def nth_append)

lemma lookup_new1: "n = length bs \<Longrightarrow> lookup (bs @ a # cs) (Suc n) = a"
  by (simp add: lookup_def nth_append)

lemma lookup_new2: "n = length bs \<Longrightarrow> lookup (bs @ a # b # cs) (Suc (Suc n)) = b"
  by (simp add: lookup_def nth_append)

lemma store_new1: "n = length bs \<Longrightarrow> store (bs @ a # cs) (Suc n) a' = bs @ a' # cs"
  by (simp add: store_def list_update_append)

lemma store_new2: "n = length bs \<Longrightarrow> store (bs @ a # b # cs) (Suc (Suc n)) b' = bs @ a # b' # cs"
  by (simp add: store_def list_update_append)

lemma store_append_old: "0 < a \<Longrightarrow> a \<le> length bs \<Longrightarrow> store (bs @ cs) a b = store bs a b @ cs"
  by (cases a) (simp_all add: store_def list_update_append)

lemma lookup_store_same: "0 < a \<Longrightarrow> a \<le> length bs \<Longrightarrow> lookup (store bs a b) a = b"
  by (simp add: lookup_def store_def)

lemma lookup_store_other: "0 < a \<Longrightarrow> a' \<noteq> a \<Longrightarrow> lookup (store bs a b) a' = lookup bs a'"
  by (auto simp add: lookup_def store_def nth_list_update)

lemma lookup_release_other: "a' \<noteq> p \<Longrightarrow> lookup (release p bs) a' = lookup bs a'"
  by (simp add: release_def lookup_store_other)

lemma realloc_cap:
  assumes "(unat n + 1) * 24 < 2 ^ 32"
  shows "unat ((n + 1) * sizeof_grub_pks_sd_t) div unat sizeof_grub_pks_sd_t = Suc (unat (n :: u32))"
proof -
  have e1: "unat (n + 1) = unat n + 1"
    using assms by (simp add: unat_word_ariths)
  have "unat ((n + 1) * (24::32 word)) = (unat n + 1) * 24"
    using assms e1 by (simp add: unat_word_ariths)
  then show ?thesis by (simp add: sizeof_grub_pks_sd_t_def)
qed

lemma realloc_array:
  assumes arr: "sd_array s p n xs"
    and fits: "(unat n + 1) * 24 < 2 ^ 32"
    and a1: "alloc_succeeds s"
  shows "grub_realloc p ((n + 1) * sizeof_grub_pks_sd_t) s =
     (Suc (length (blocks s)),
      s\<lparr>blocks := release p (blocks s) @ [Some (Slots (xs @ [unassigned]))],
        plan := tl (plan s),
        freed := (if p = 0 then freed s else p # freed s)\<rparr>)"
proof (cases "p = 0")
  case True
  then have "xs = []" and "unat n = 0" using arr by (auto simp add: sd_array_def)
  then show ?thesis using True a1 realloc_cap [OF fits]
    by (simp add: grub_realloc_def Let_def resize_def release_def)
next
  case False
  then have lk: "lookup (blocks s) p = Some (Slots xs)" and len: "length xs = unat n"
    using arr by (simp_all add: sd_array_def)
  from lk have rng: "0 < p \<and> p \<le> length (blocks s)" by (rule lookup_Some_range)
  show ?thesis using False a1 realloc_cap [OF fits] lk len rng
    by (simp add: grub_realloc_def Let_def resize_def release_def grub_free_def
        lookup_append_old store_append_old)
qed


lemma round_ok:
  assumes arr: "sd_array s (signature v) (entries v) xs"
    and fits: "(unat (entries v) + 1) * 24 < 2 ^ 32"
    and a1: "alloc_succeeds s"
    and a2: "alloc_succeeds (s\<lparr>plan := tl (plan s)\<rparr>)"
  shows "esl_to_esd_round esl_data signature_size guidp v s =
     Inr (v\<lparr>signature := Suc (length (blocks s)), entries := entries v + 1,
            esl_size := esl_size v - signature_size, offset := offset v + signature_size\<rparr>,
          s\<lparr>blocks := release (signature v) (blocks s) @
                [Some (Slots (xs @ [new_entry guidp (signature_size - 16) (Suc (Suc (length (blocks s))))])),
                 Some (Buf (take (unat (signature_size - 16)) (drop (unat (offset v) + 16) esl_data)))],
            plan := tl (tl (plan s)),
            freed := (if signature v = 0 then freed s else signature v # freed s),
            fault := fault s \<or> length esl_data - (unat (offset v) + 16) < unat (signature_size - 16)\<rparr>)"
proof -
  have len: "length xs = unat (entries v)" using arr by (simp add: sd_array_def)
  have a2': "alloc_succeeds (s\<lparr>blocks := release (signature v) (blocks s) @ [Some (Slots (xs @ [unassigned]))],
        plan := tl (plan s),
        freed := (if signature v = 0 then freed s else signature v # freed s)\<rparr>)"
    using a2 by (simp add: alloc_succeeds_def)
  show ?thesis
    using a2'
    by (simp add: esl_to_esd_round_def realloc_array [OF arr fits a1] Let_def grub_malloc_def
        slot_assign_def grub_memcpy_def length_release lookup_new1 lookup_new2 store_new1 store_new2
        new_entry_def unassigned_def sizeof_grub_esd_t_def len [symmetric])
qed

lemma round_fail:
  assumes arr: "sd_array s (signature v) (entries v) xs"
    and fits: "(unat (entries v) + 1) * 24 < 2 ^ 32"
    and a1: "alloc_succeeds s"
    and a2: "\<not> alloc_succeeds (s\<lparr>plan := tl (plan s)\<rparr>)"
  shows "esl_to_esd_round esl_data signature_size guidp v s =
     Inl (GRUB_ERR_OUT_OF_MEMORY,
          v\<lparr>signature := Suc (length (blocks s)), pks_sd := Suc (length (blocks s)),
            pks_sd_entries := entries v + 1\<rparr>,
          s\<lparr>blocks := release (signature v) (blocks s) @
                [Some (Slots (xs @ [unassigned\<lparr>data := Some 0\<rparr>]))],
            plan := tl (tl (plan s)),
            freed := (if signature v = 0 then freed s else signature v # freed s),
            grub_errno := GRUB_ERR_OUT_OF_MEMORY\<rparr>)"
proof -
  have len: "length xs = unat (entries v)" using arr by (simp add: sd_array_def)
  have a2': "\<not> alloc_succeeds (s\<lparr>blocks := release (signature v) (blocks s) @ [Some (Slots (xs @ [unassigned]))],
        plan := tl (plan s),
        freed := (if signature v = 0 then freed s else signature v # freed s)\<rparr>)"
    using a2 by (simp add: alloc_succeeds_def)
  show ?thesis
    using a2'
    by (simp add: esl_to_esd_round_def realloc_array [OF arr fits a1] Let_def grub_malloc_def
        slot_assign_def grub_error_def length_release lookup_new1 store_new1 len [symmetric])
qed


lemma grown_0: "grown s p xs g dsize pl 0 s"
  by (simp add: grown_def)

lemma new_entries_Suc:
  "new_entries l g dsize (Suc k) = new_entries l g dsize k @ [new_entry g dsize (l + 2 * k + 2)]"
  by (simp add: new_entries_def)

lemma length_new_entries: "length (new_entries l g dsize k) = k"
  by (simp add: new_entries_def)

lemma lookup_release_same:
  "p \<noteq> 0 \<Longrightarrow> p \<le> length bs \<Longrightarrow> lookup (release p bs) p = None"
  by (simp add: release_def lookup_store_same)

lemma grown_step:
  assumes g: "grown s p xs gd dsize pl k sk"
    and valid: "p = 0 \<or> (0 < p \<and> p \<le> length (blocks s))"
    and pk: "pk = (if k = 0 then p else length (blocks s) + 2 * k - 1)"
    and b2: "blocks s2 = release pk (blocks sk) @
               [Some (Slots ((xs @ new_entries (length (blocks s)) gd dsize k) @
                               [new_entry gd dsize (Suc (Suc (length (blocks sk))))])),
                Some (Buf (pl k))]"
    and rest: "plan s2 = tl (tl (plan sk))" "fault s2 = fault sk" "grub_errno s2 = grub_errno sk"
      "statics s2 = statics sk"
  shows "grown s p xs gd dsize pl (Suc k) s2"
proof -
  let ?L = "length (blocks s)"
  have len: "length (blocks sk) = ?L + 2 * k" using g by (simp add: grown_def)
  have pk_le: "pk \<le> length (blocks sk)" using pk valid len by auto
  have pk_pos: "0 < k \<Longrightarrow> 0 < pk" using pk by simp
  have look_old: "\<And>a. a \<le> length (blocks sk) \<Longrightarrow> a \<noteq> pk \<Longrightarrow> lookup (blocks s2) a = lookup (blocks sk) a"
    by (simp add: b2 lookup_append_old length_release lookup_release_other)
  have c1: "length (blocks s2) = ?L + 2 * Suc k" by (simp add: b2 length_release len)
  have c2: "lookup (blocks s2) (?L + 2 * Suc k - 1) = Some (Slots (xs @ new_entries ?L gd dsize (Suc k)))"
    by (simp add: b2 lookup_new1 length_release len new_entries_Suc)
  have c3: "\<forall>i < Suc k. lookup (blocks s2) (?L + 2 * i + 2) = Some (Buf (pl i))"
  proof (intro allI impI)
    fix i assume i: "i < Suc k"
    show "lookup (blocks s2) (?L + 2 * i + 2) = Some (Buf (pl i))"
    proof (cases "i = k")
      case True
      then show ?thesis by (simp add: b2 lookup_new2 length_release len)
    next
      case False
      then have ik: "i < k" using i by simp
      have "?L + 2 * i + 2 \<noteq> pk" using pk ik by (cases "k = 0") (simp, simp, presburger)
      moreover have "?L + 2 * i + 2 \<le> length (blocks sk)" using ik len by simp
      ultimately have "lookup (blocks s2) (?L + 2 * i + 2) = lookup (blocks sk) (?L + 2 * i + 2)"
        by (rule look_old [rotated])
      then show ?thesis using g ik by (simp add: grown_def)
    qed
  qed
  have c4: "\<forall>i. Suc i < Suc k \<longrightarrow> lookup (blocks s2) (?L + 2 * i + 1) = None"
  proof (intro allI impI)
    fix i assume i: "Suc i < Suc k"
    show "lookup (blocks s2) (?L + 2 * i + 1) = None"
    proof (cases "Suc i = k")
      case True
      then have e: "?L + 2 * i + 1 = pk" using pk by auto
      have "lookup (blocks s2) pk = None"
        using pk_le pk_pos True by (simp add: b2 lookup_append_old length_release lookup_release_same)
      then show ?thesis using e by simp
    next
      case False
      then have ik: "Suc i < k" using i by simp
      have "?L + 2 * i + 1 \<noteq> pk" using pk ik by (cases "k = 0") auto
      moreover have "?L + 2 * i + 1 \<le> length (blocks sk)" using ik len by simp
      ultimately have "lookup (blocks s2) (?L + 2 * i + 1) = lookup (blocks sk) (?L + 2 * i + 1)"
        by (rule look_old [rotated])
      then show ?thesis using g ik by (simp add: grown_def)
    qed
  qed
  have c5: "\<forall>a \<le> ?L. a \<noteq> p \<longrightarrow> lookup (blocks s2) a = lookup (blocks s) a"
  proof (intro allI impI)
    fix a assume a: "a \<le> ?L" "a \<noteq> p"
    have "a \<noteq> pk" using pk a by (auto split: if_splits)
    moreover have "a \<le> length (blocks sk)" using a len by simp
    ultimately have "lookup (blocks s2) a = lookup (blocks sk) a" by (rule look_old [rotated])
    then show "lookup (blocks s2) a = lookup (blocks s) a" using g a by (simp add: grown_def)
  qed
  have c6: "p \<noteq> 0 \<longrightarrow> lookup (blocks s2) p = None"
  proof
    assume p0: "p \<noteq> 0"
    show "lookup (blocks s2) p = None"
    proof (cases "k = 0")
      case True
      then have "pk = p" using pk by simp
      then show ?thesis using p0 pk_le by (simp add: b2 lookup_append_old length_release lookup_release_same)
    next
      case False
      have "p \<noteq> pk" using pk False valid by auto
      moreover have "p \<le> length (blocks sk)" using valid len by auto
      ultimately have "lookup (blocks s2) p = lookup (blocks sk) p" by (rule look_old [rotated])
      then show ?thesis using g p0 False by (simp add: grown_def)
    qed
  qed
  have c7: "plan s2 = drop (2 * Suc k) (plan s)"
    using g rest by (simp add: grown_def drop_Suc tl_drop)
  show ?thesis
    unfolding grown_def [of s p xs gd dsize pl "Suc k" s2]
    using c1 c2 c3 c4 c5 c6 c7 g rest by (simp add: grown_def)
qed


lemma allocs_succeed_drop:
  assumes "allocs_succeed (m + j) s" and "plan s' = drop m (plan s)"
  shows "allocs_succeed j s'"
proof -
  have "take j (drop m (plan s)) = drop m (take (j + m) (plan s))" by (simp add: take_drop)
  then have "set (take j (plan s')) \<subseteq> set (take (m + j) (plan s))"
    using assms(2) by (simp add: set_drop_subset add.commute)
  then show ?thesis using assms(1) by (auto simp add: allocs_succeed_def)
qed

lemma allocs_succeed_mono: "allocs_succeed m s \<Longrightarrow> j \<le> m \<Longrightarrow> allocs_succeed j s"
  by (auto simp add: allocs_succeed_def dest: set_take_subset_set_take [THEN subsetD])

lemma unat_of_nat_mult:
  assumes "k * unat (w :: 32 word) < 2 ^ 32"
  shows "unat (of_nat k * w) = k * unat w"
proof (cases "unat w = 0")
  case True
  then have "w = 0" by (simp add: unat_eq_zero)
  then show ?thesis by simp
next
  case False
  then have "k \<le> k * unat w" by simp
  then have "k < 2 ^ 32" using assms by linarith
  then have "unat (of_nat k :: 32 word) = k" by (simp add: unat_of_nat)
  then show ?thesis using assms by (simp add: unat_word_ariths)
qed

lemma rounds:
  assumes arr: "sd_array s (signature v) (entries v) xs"
    and sz: "16 \<le> unat signature_size"
    and N: "unat (esl_size v) = N * unat signature_size"
    and inb: "unat (offset v) + N * unat signature_size \<le> length esl_data"
    and lt: "length esl_data < 2 ^ 32"
    and fits: "(unat (entries v) + N) * 24 < 2 ^ 32"
  shows "k \<le> N \<Longrightarrow> allocs_succeed (2 * k) s \<Longrightarrow>
     \<exists>s'. esl_to_esd_loop esl_data signature_size guidp v s
            = esl_to_esd_loop esl_data signature_size guidp
                (vars_after v (length (blocks s)) k signature_size) s'
          \<and> grown s (signature v) xs guidp (signature_size - 16)
                (payload esl_data (unat (offset v)) (unat signature_size)) k s'"
proof (induction k)
  case 0
  have "vars_after v (length (blocks s)) 0 signature_size = v" by (simp add: vars_after_def)
  then show ?case using grown_0 by auto
next
  case (Suc k)
  let ?L = "length (blocks s)"
  let ?vk = "vars_after v ?L k signature_size"
  let ?pl = "payload esl_data (unat (offset v)) (unat signature_size)"
  have kN: "k < N" using Suc.prems(1) by simp
  have al: "allocs_succeed (2 * k) s" using Suc.prems(2) by (rule allocs_succeed_mono) simp
  from Suc.IH [OF _ al] kN obtain sk where
    lk: "esl_to_esd_loop esl_data signature_size guidp v s
            = esl_to_esd_loop esl_data signature_size guidp ?vk sk"
    and gk: "grown s (signature v) xs guidp (signature_size - 16) ?pl k sk" by auto
  have pos: "0 < unat signature_size" using sz by simp
  have Nlt: "N * unat signature_size < 2 ^ 32" using inb lt by linarith
  have kmul: "k * unat signature_size \<le> N * unat signature_size" using kN by simp
  have km: "unat (of_nat k * signature_size) = k * unat signature_size"
    using kmul Nlt by (intro unat_of_nat_mult) linarith
  have le: "of_nat k * signature_size \<le> esl_size v"
    using km N kmul by (simp add: word_le_nat_alt)
  have esk: "unat (esl_size ?vk) = (N - k) * unat signature_size"
    using le km N by (simp add: vars_after_def unat_sub diff_mult_distrib)
  have gt: "0 < esl_size ?vk" using esk kN pos by (simp add: word_less_nat_alt)
  have offk: "unat (offset ?vk) = unat (offset v) + k * unat signature_size"
  proof -
    have "unat (offset v) + k * unat signature_size < 2 ^ 32" using inb lt kmul by linarith
    then show ?thesis using km by (simp add: vars_after_def unat_word_ariths)
  qed
  have entk: "unat (entries ?vk) = unat (entries v) + k"
  proof -
    have "unat (entries v) + k < 2 ^ 32" using fits kN by simp
    moreover from this have "unat (of_nat k :: 32 word) = k" by (simp add: unat_of_nat)
    ultimately show ?thesis by (simp add: vars_after_def unat_word_ariths)
  qed
  have lenk: "length (blocks sk) = ?L + 2 * k" using gk by (simp add: grown_def)
  have valid: "signature v = 0 \<or> (0 < signature v \<and> signature v \<le> ?L)"
    using arr lookup_Some_range [of "blocks s" "signature v"] by (auto simp add: sd_array_def)
  have arrk: "sd_array sk (signature ?vk) (entries ?vk) (xs @ new_entries ?L guidp (signature_size - 16) k)"
  proof (cases "k = 0")
    case True
    then show ?thesis using arr gk by (simp add: sd_array_def grown_def vars_after_def new_entries_def)
  next
    case False
    then show ?thesis using arr gk entk
      by (simp add: sd_array_def grown_def length_new_entries) (simp add: vars_after_def)
  qed
  have fitk: "(unat (entries ?vk) + 1) * 24 < 2 ^ 32" using fits kN entk by simp
  have a2: "allocs_succeed 2 sk"
  proof (rule allocs_succeed_drop)
    show "allocs_succeed (2 * k + 2) s" using Suc.prems(2) by simp
    show "plan sk = drop (2 * k) (plan s)" using gk by (simp add: grown_def)
  qed
  have a2': "allocs_succeed (Suc (Suc 0)) sk" using a2 by (simp add: numeral_2_eq_2)
  note r = round_ok [OF arrk fitk allocs_succeed_2(1) [OF a2'] allocs_succeed_2(2) [OF a2'],
      of esl_data signature_size guidp]
  let ?v2 = "?vk\<lparr>signature := Suc (length (blocks sk)), entries := entries ?vk + 1,
            esl_size := esl_size ?vk - signature_size, offset := offset ?vk + signature_size\<rparr>"
  let ?s2 = "sk\<lparr>blocks := release (signature ?vk) (blocks sk) @
                [Some (Slots ((xs @ new_entries ?L guidp (signature_size - 16) k) @
                   [new_entry guidp (signature_size - 16) (Suc (Suc (length (blocks sk))))])),
                 Some (Buf (take (unat (signature_size - 16)) (drop (unat (offset ?vk) + 16) esl_data)))],
            plan := tl (tl (plan sk)),
            freed := (if signature ?vk = 0 then freed sk else signature ?vk # freed sk),
            fault := fault sk \<or> length esl_data - (unat (offset ?vk) + 16) < unat (signature_size - 16)\<rparr>"
  have v2: "?v2 = vars_after v ?L (Suc k) signature_size"
    using lenk by (simp add: vars_after_def algebra_simps)
  have step: "esl_to_esd_loop esl_data signature_size guidp ?vk sk
              = esl_to_esd_loop esl_data signature_size guidp ?v2 ?s2"
    using gt r by (subst esl_to_esd_loop.simps) simp
  have d16: "unat (signature_size - 16) = unat signature_size - 16"
    using sz by (simp add: unat_sub word_le_nat_alt)
  have nofault: "\<not> length esl_data - (unat (offset ?vk) + 16) < unat (signature_size - 16)"
  proof -
    have "Suc k * unat signature_size \<le> N * unat signature_size" using kN by (simp del: mult_Suc)
    then have "unat (offset v) + k * unat signature_size + unat signature_size \<le> length esl_data"
      using inb by simp
    then show ?thesis using offk d16 sz by simp
  qed
  have plk: "take (unat (signature_size - 16)) (drop (unat (offset ?vk) + 16) esl_data) = ?pl k"
    by (simp add: payload_def d16 offk)
  have g2: "grown s (signature v) xs guidp (signature_size - 16) ?pl (Suc k) ?s2"
  proof (rule grown_step [OF gk valid])
    show "signature ?vk = (if k = 0 then signature v else ?L + 2 * k - 1)" by (simp add: vars_after_def)
    show "blocks ?s2 = release (signature ?vk) (blocks sk) @
               [Some (Slots ((xs @ new_entries ?L guidp (signature_size - 16) k) @
                               [new_entry guidp (signature_size - 16) (Suc (Suc (length (blocks sk))))])),
                Some (Buf (?pl k))]"
      using plk by simp
    show "plan ?s2 = tl (tl (plan sk))" by simp
    show "fault ?s2 = fault sk" using nofault by simp
    show "grub_errno ?s2 = grub_errno sk" by simp
    show "statics ?s2 = statics sk" by (simp add: statics_def)
  qed
  show ?case using lk step v2 g2 by auto
qed

lemma loop_exit:
  "esl_size v = 0 \<Longrightarrow>
   esl_to_esd_loop esl_data signature_size guidp v s =
     Some (GRUB_ERR_NONE, v\<lparr>pks_sd := signature v, pks_sd_entries := entries v\<rparr>, s)"
  by (subst esl_to_esd_loop.simps) simp

lemma esl_to_esd'_ok:
  assumes arr: "sd_array s sd n xs"
    and sz: "16 \<le> unat signature_size"
    and N: "unat esl_sz = N * unat signature_size"
    and inb: "N * unat signature_size \<le> length esl_data"
    and lt: "length esl_data < 2 ^ 32"
    and fits: "(unat n + N) * 24 < 2 ^ 32"
    and al: "allocs_succeed (2 * N) s"
  shows "\<exists>s'. esl_to_esd' esl_data esl_sz signature_size guidp sd n s =
            Some (GRUB_ERR_NONE, (if N = 0 then sd else length (blocks s) + 2 * N - 1), n + of_nat N, s')
          \<and> grown s sd xs guidp (signature_size - 16) (payload esl_data 0 (unat signature_size)) N s'"
proof -
  let ?v = "\<lparr>signature = sd, entries = n, esl_size = esl_sz, offset = 0,
           pks_sd = sd, pks_sd_entries = n\<rparr>"
  have "\<exists>s'. esl_to_esd_loop esl_data signature_size guidp ?v s
            = esl_to_esd_loop esl_data signature_size guidp
                (vars_after ?v (length (blocks s)) N signature_size) s'
          \<and> grown s (signature ?v) xs guidp (signature_size - 16)
                (payload esl_data (unat (offset ?v)) (unat signature_size)) N s'"
    using arr sz N inb lt fits al by (intro rounds [where N = N]) simp_all
  then obtain s' where
    l: "esl_to_esd_loop esl_data signature_size guidp ?v s
            = esl_to_esd_loop esl_data signature_size guidp
                (vars_after ?v (length (blocks s)) N signature_size) s'"
    and g: "grown s sd xs guidp (signature_size - 16) (payload esl_data 0 (unat signature_size)) N s'"
    by auto
  have Nlt: "N * unat signature_size < 2 ^ 32" using inb lt by linarith
  have "of_nat N * signature_size = esl_sz"
    using unat_of_nat_mult [OF Nlt] N by (simp add: word_unat_eq_iff)
  then have z: "esl_size (vars_after ?v (length (blocks s)) N signature_size) = 0"
    by (simp add: vars_after_def)
  have e: "esl_to_esd_loop esl_data signature_size guidp ?v s =
     Some (GRUB_ERR_NONE,
           (vars_after ?v (length (blocks s)) N signature_size)
             \<lparr>pks_sd := signature (vars_after ?v (length (blocks s)) N signature_size),
              pks_sd_entries := entries (vars_after ?v (length (blocks s)) N signature_size)\<rparr>, s')"
    using l loop_exit [OF z] by simp
  have "esl_to_esd' esl_data esl_sz signature_size guidp sd n s =
            Some (GRUB_ERR_NONE, (if N = 0 then sd else length (blocks s) + 2 * N - 1), n + of_nat N, s')"
    by (simp add: esl_to_esd'_def e) (simp add: vars_after_def)
  then show ?thesis using g by blast
qed


lemma vars_after_facts:
  assumes N: "unat (esl_size v) = N * unat signature_size"
    and inb: "unat (offset v) + N * unat signature_size \<le> length esl_data"
    and lt: "length (esl_data :: u8 list) < 2 ^ 32"
    and fits: "(unat (entries v) + N) * 24 < 2 ^ 32"
    and kN: "k \<le> N"
  shows "unat (esl_size (vars_after v l k signature_size)) = (N - k) * unat signature_size"
    and "unat (offset (vars_after v l k signature_size)) = unat (offset v) + k * unat signature_size"
    and "unat (entries (vars_after v l k signature_size)) = unat (entries v) + k"
proof -
  have Nlt: "N * unat signature_size < 2 ^ 32" using inb lt by linarith
  have kmul: "k * unat signature_size \<le> N * unat signature_size" using kN by simp
  have km: "unat (of_nat k * signature_size) = k * unat signature_size"
    using kmul Nlt by (intro unat_of_nat_mult) linarith
  have le: "of_nat k * signature_size \<le> esl_size v"
    using km N kmul by (simp add: word_le_nat_alt)
  show "unat (esl_size (vars_after v l k signature_size)) = (N - k) * unat signature_size"
    using le km N by (simp add: vars_after_def unat_sub diff_mult_distrib)
  have "unat (offset v) + k * unat signature_size < 2 ^ 32" using inb lt kmul by linarith
  then show "unat (offset (vars_after v l k signature_size)) = unat (offset v) + k * unat signature_size"
    using km by (simp add: vars_after_def unat_word_ariths)
  have "unat (entries v) + k < 2 ^ 32" using fits kN by simp
  moreover from this have "unat (of_nat k :: 32 word) = k" by (simp add: unat_of_nat)
  ultimately show "unat (entries (vars_after v l k signature_size)) = unat (entries v) + k"
    by (simp add: vars_after_def unat_word_ariths)
qed

lemma grown_array:
  assumes arr: "sd_array s (signature v) (entries v) xs"
    and g: "grown s (signature v) xs g dsize pl k sk"
    and ent: "unat (entries (vars_after v (length (blocks s)) k sz)) = unat (entries v) + k"
  shows "sd_array sk (signature (vars_after v (length (blocks s)) k sz))
           (entries (vars_after v (length (blocks s)) k sz))
           (xs @ new_entries (length (blocks s)) g dsize k)"
proof (cases "k = 0")
  case True
  then show ?thesis using arr g by (simp add: sd_array_def grown_def vars_after_def new_entries_def)
next
  case False
  then show ?thesis using arr g ent
    by (simp add: sd_array_def grown_def length_new_entries) (simp add: vars_after_def)
qed

lemma esl_to_esd'_payload_fails:
  assumes arr: "sd_array s sd n xs"
    and sz: "16 \<le> unat signature_size"
    and N: "unat esl_sz = N * unat signature_size"
    and inb: "N * unat signature_size \<le> length esl_data"
    and lt: "length esl_data < 2 ^ 32"
    and fits: "(unat n + N) * 24 < 2 ^ 32"
    and kN: "k < N"
    and al: "allocs_succeed (2 * k + 1) s"
    and no: "2 * k + 1 < length (plan s)" "\<not> plan s ! (2 * k + 1)"
  shows "\<exists>sk. grown s sd xs guidp (signature_size - 16) (payload esl_data 0 (unat signature_size)) k sk
          \<and> esl_to_esd' esl_data esl_sz signature_size guidp sd n s =
              Some (GRUB_ERR_OUT_OF_MEMORY, length (blocks s) + 2 * k + 1, n + of_nat k + 1,
                    failed_round sk (if k = 0 then sd else length (blocks s) + 2 * k - 1)
                      (xs @ new_entries (length (blocks s)) guidp (signature_size - 16) k))"
proof -
  let ?v = "\<lparr>signature = sd, entries = n, esl_size = esl_sz, offset = 0,
           pks_sd = sd, pks_sd_entries = n\<rparr>"
  let ?L = "length (blocks s)"
  let ?vk = "vars_after ?v ?L k signature_size"
  have alk: "allocs_succeed (2 * k) s" using al by (rule allocs_succeed_mono) simp
  have "\<exists>s'. esl_to_esd_loop esl_data signature_size guidp ?v s
            = esl_to_esd_loop esl_data signature_size guidp ?vk s'
          \<and> grown s (signature ?v) xs guidp (signature_size - 16)
                (payload esl_data (unat (offset ?v)) (unat signature_size)) k s'"
    using arr sz N inb lt fits alk kN by (intro rounds [where N = N]) simp_all
  then obtain sk where
    l: "esl_to_esd_loop esl_data signature_size guidp ?v s
            = esl_to_esd_loop esl_data signature_size guidp ?vk sk"
    and g: "grown s sd xs guidp (signature_size - 16) (payload esl_data 0 (unat signature_size)) k sk"
    by auto
  have f: "unat (esl_size ?vk) = (N - k) * unat signature_size"
     "unat (entries ?vk) = unat (entries ?v) + k"
    using vars_after_facts [of ?v N signature_size esl_data k ?L] N inb lt fits kN by simp_all
  have gt: "0 < esl_size ?vk" using f(1) kN sz by (simp add: word_less_nat_alt)
  have arrk: "sd_array sk (signature ?vk) (entries ?vk) (xs @ new_entries ?L guidp (signature_size - 16) k)"
    using grown_array [of s ?v xs guidp "signature_size - 16" _ k sk signature_size] arr g f(2) by simp
  have fitk: "(unat (entries ?vk) + 1) * 24 < 2 ^ 32" using fits kN f(2) by simp
  have pk: "plan sk = drop (2 * k) (plan s)" using g by (simp add: grown_def)
  have a1: "alloc_succeeds sk"
  proof -
    have "allocs_succeed 1 sk" using al pk by (rule allocs_succeed_drop)
    then show ?thesis by (cases "plan sk") (simp_all add: allocs_succeed_def alloc_succeeds_def)
  qed
  have a2: "\<not> alloc_succeeds (sk\<lparr>plan := tl (plan sk)\<rparr>)"
  proof -
    have "tl (plan sk) = drop (2 * k + 1) (plan s)" using pk by (simp add: drop_Suc tl_drop)
    then have "tl (plan sk) = plan s ! (2 * k + 1) # drop (Suc (2 * k + 1)) (plan s)"
      using no(1) by (simp add: Cons_nth_drop_Suc)
    then show ?thesis using no(2) by (simp add: alloc_succeeds_def)
  qed
  note r = round_fail [OF arrk fitk a1 a2, of esl_data signature_size guidp]
  have lenk: "length (blocks sk) = ?L + 2 * k" using g by (simp add: grown_def)
  have "esl_to_esd_loop esl_data signature_size guidp ?vk sk =
     Some (GRUB_ERR_OUT_OF_MEMORY,
          ?vk\<lparr>signature := Suc (length (blocks sk)), pks_sd := Suc (length (blocks sk)),
            pks_sd_entries := entries ?vk + 1\<rparr>,
          failed_round sk (signature ?vk) (xs @ new_entries ?L guidp (signature_size - 16) k))"
    using gt r by (subst esl_to_esd_loop.simps) (simp add: failed_round_def)
  then have "esl_to_esd' esl_data esl_sz signature_size guidp sd n s =
              Some (GRUB_ERR_OUT_OF_MEMORY, ?L + 2 * k + 1, n + of_nat k + 1,
                    failed_round sk (if k = 0 then sd else ?L + 2 * k - 1)
                      (xs @ new_entries ?L guidp (signature_size - 16) k))"
    using l lenk by (simp add: esl_to_esd'_def) (simp add: vars_after_def)
  then show ?thesis using g by blast
qed

subsection \<open>Teardown after a failed payload allocation\<close>

lemma free_entries:
  assumes p: "lookup (blocks s) p = Some (Slots zs)"
    and d: "\<forall>i<j. i < length zs \<and> data (zs ! i) = Some (a i) \<and> a i \<noteq> p
                 \<and> lookup (blocks s) (a i) \<noteq> None"
    and inj: "inj_on a {..<j}"
  shows "\<exists>b. foldl (free_entry_data p) s [0 ..< j]
               = s\<lparr>blocks := b, freed := rev (map a [0 ..< j]) @ freed s\<rparr>
          \<and> length b = length (blocks s)
          \<and> (\<forall>c. lookup b c = (if c \<in> a ` {..<j} then None else lookup (blocks s) c))"
  using d inj
proof (induction j)
  case 0
  show ?case by (rule exI [of _ "blocks s"]) simp
next
  case (Suc j)
  have dj: "\<forall>i<j. i < length zs \<and> data (zs ! i) = Some (a i) \<and> a i \<noteq> p
                 \<and> lookup (blocks s) (a i) \<noteq> None" using Suc.prems(1) by simp
  have ij: "inj_on a {..<j}" using Suc.prems(2) by (rule inj_on_subset) auto
  from Suc.IH [OF dj ij] obtain b where
    f: "foldl (free_entry_data p) s [0 ..< j]
               = s\<lparr>blocks := b, freed := rev (map a [0 ..< j]) @ freed s\<rparr>"
    and lb: "length b = length (blocks s)"
    and cb: "\<forall>c. lookup b c = (if c \<in> a ` {..<j} then None else lookup (blocks s) c)" by blast
  let ?t = "s\<lparr>blocks := b, freed := rev (map a [0 ..< j]) @ freed s\<rparr>"
  have j: "j < length zs" "data (zs ! j) = Some (a j)" "a j \<noteq> p" "lookup (blocks s) (a j) \<noteq> None"
    using Suc.prems(1) by simp_all
  have pnot: "p \<notin> a ` {..<j}" using dj by auto
  have ajnot: "a j \<notin> a ` {..<j}"
  proof
    assume "a j \<in> a ` {..<j}"
    then obtain x where x: "x < j" "a j = a x" by auto
    then have "j = x" using Suc.prems(2) by (auto simp add: inj_on_def)
    then show False using x by simp
  qed
  have lp: "lookup b p = Some (Slots zs)" using cb pnot p by simp
  have laj: "lookup b (a j) \<noteq> None" using cb ajnot j(4) by simp
  then obtain y where ly: "lookup b (a j) = Some y" by auto
  then have rng: "0 < a j \<and> a j \<le> length b" by (rule lookup_Some_range)
  then have aj0: "a j \<noteq> 0" by simp
  have step: "free_entry_data p ?t j =
     s\<lparr>blocks := store b (a j) None, freed := rev (map a [0 ..< Suc j]) @ freed s\<rparr>"
    using lp j(1,2) ly aj0 by (simp add: free_entry_data_def grub_free_def)
  have c': "\<forall>c. lookup (store b (a j) None) c = (if c \<in> a ` {..<Suc j} then None else lookup (blocks s) c)"
  proof
    fix c
    show "lookup (store b (a j) None) c = (if c \<in> a ` {..<Suc j} then None else lookup (blocks s) c)"
    proof (cases "c = a j")
      case True
      then show ?thesis using rng by (simp add: lookup_store_same)
    next
      case False
      then have "lookup (store b (a j) None) c = lookup b c" using rng by (simp add: lookup_store_other)
      moreover have "c \<in> a ` {..<Suc j} \<longleftrightarrow> c \<in> a ` {..<j}" using False by (auto simp add: less_Suc_eq)
      ultimately show ?thesis using cb by simp
    qed
  qed
  have "foldl (free_entry_data p) s [0 ..< Suc j]
          = s\<lparr>blocks := store b (a j) None, freed := rev (map a [0 ..< Suc j]) @ freed s\<rparr>"
    using f step by simp
  moreover have "length (store b (a j) None) = length (blocks s)" using lb by (simp add: length_store)
  ultimately show ?case using c' by blast
qed


lemma lookup_ext:
  assumes "length bs = length cs" and "\<forall>c. lookup bs c = lookup cs c"
  shows "bs = cs"
proof (rule nth_equalityI)
  show "length bs = length cs" by fact
  fix i assume i: "i < length bs"
  have "lookup bs (Suc i) = lookup cs (Suc i)" using assms(2) by blast
  then show "bs ! i = cs ! i" using i assms(1) by (simp add: lookup_def)
qed

lemma lookup_out: "c = 0 \<or> length bs < c \<Longrightarrow> lookup bs c = None"
  by (auto simp add: lookup_def)

lemma lookup_append_free:
  assumes "length bs < c"
  shows "lookup (bs @ replicate m None) c = None"
proof (cases "c \<le> length bs + m")
  case False
  then show ?thesis by (simp add: lookup_def)
next
  case True
  have n: "\<not> c - 1 < length bs" using assms by linarith
  have "c - 1 - length bs < m" using assms True by linarith
  then have "replicate m None ! (c - 1 - length bs) = (None :: block option)" by (rule nth_replicate)
  then show ?thesis using n by (simp add: lookup_def nth_append)
qed

lemma nth_new_entries: "i < k \<Longrightarrow> new_entries l g dsize k ! i = new_entry g dsize (l + 2 * i + 2)"
  by (simp add: new_entries_def)

lemma teardown_after_failure:
  assumes g: "grown s 0 [] gd dsize pl k sk"
    and small: "k + 1 < 2 ^ 32"
    and ks: "dbx (pks_keystore sk) = 0" "dbx_entries (pks_keystore sk) = 0"
  defines "s1 \<equiv> failed_round sk (if k = 0 then 0 else length (blocks s) + 2 * k - 1)
                    (new_entries (length (blocks s)) gd dsize k)"
  shows "grub_pks_tmp_free
           (s1\<lparr>pks_keystore := (pks_keystore s1)\<lparr>db := length (blocks s) + 2 * k + 1,
                                                  db_entries := of_nat k + 1\<rparr>\<rparr>)
         = s1\<lparr>blocks := blocks s @ replicate (2 * k + 1) None,
              freed := (length (blocks s) + 2 * k + 1)
                         # rev (map (\<lambda>i. length (blocks s) + 2 * i + 2) [0 ..< k]) @ freed s1,
              pks_keystore := pks_keystore_zero\<rparr>"
proof -
  let ?L = "length (blocks s)"
  let ?pk = "if k = 0 then 0 else ?L + 2 * k - 1"
  let ?es = "new_entries ?L gd dsize k"
  let ?zs = "?es @ [unassigned\<lparr>data := Some 0\<rparr>]"
  let ?p' = "?L + 2 * k + 1"
  let ?a = "\<lambda>i. ?L + 2 * i + 2"
  let ?s1' = "s1\<lparr>pks_keystore := (pks_keystore s1)\<lparr>db := ?p', db_entries := of_nat k + 1\<rparr>\<rparr>"
  have lenk: "length (blocks sk) = ?L + 2 * k" using g by (simp add: grown_def)
  have b1: "blocks s1 = release ?pk (blocks sk) @ [Some (Slots ?zs)]"
    by (simp add: s1_def failed_round_def)
  have len1: "length (blocks s1) = ?L + 2 * k + 1" by (simp add: b1 length_release lenk)
  have pk_le: "?pk \<le> length (blocks sk)" using lenk by simp
  have lp': "lookup (blocks s1) ?p' = Some (Slots ?zs)"
    by (simp add: b1 lookup_new1 length_release lenk)
  have old: "\<And>c. c \<le> length (blocks sk) \<Longrightarrow> c \<noteq> ?pk \<Longrightarrow> lookup (blocks s1) c = lookup (blocks sk) c"
    by (simp add: b1 lookup_append_old length_release lookup_release_other)
  have pay: "\<forall>i<k. lookup (blocks s1) (?a i) = Some (Buf (pl i))"
  proof (intro allI impI)
    fix i assume i: "i < k"
    have "?a i \<noteq> ?pk" using i by (cases "k = 0") (simp, simp, presburger)
    moreover have "?a i \<le> length (blocks sk)" using i lenk by simp
    ultimately have "lookup (blocks s1) (?a i) = lookup (blocks sk) (?a i)" by (rule old [rotated])
    then show "lookup (blocks s1) (?a i) = Some (Buf (pl i))" using g i by (simp add: grown_def)
  qed
  have d: "\<forall>i<k. i < length ?zs \<and> data (?zs ! i) = Some (?a i) \<and> ?a i \<noteq> ?p'
                 \<and> lookup (blocks ?s1') (?a i) \<noteq> None"
    using pay by (auto simp add: length_new_entries nth_append nth_new_entries new_entry_def)
  have inj: "inj_on ?a {..<k}" by (simp add: inj_on_def)
  have lp1': "lookup (blocks ?s1') ?p' = Some (Slots ?zs)" using lp' by simp
  from free_entries [OF lp1' d inj] obtain b where
    f: "foldl (free_entry_data ?p') ?s1' [0 ..< k]
               = ?s1'\<lparr>blocks := b, freed := rev (map ?a [0 ..< k]) @ freed ?s1'\<rparr>"
    and lb: "length b = length (blocks ?s1')"
    and cb: "\<forall>c. lookup b c = (if c \<in> ?a ` {..<k} then None else lookup (blocks ?s1') c)" by blast
  let ?t = "?s1'\<lparr>blocks := b, freed := rev (map ?a [0 ..< k]) @ freed ?s1'\<rparr>"
  have p'not: "?p' \<notin> ?a ` {..<k}" by auto presburger
  have lbp: "lookup b ?p' = Some (Slots ?zs)" using cb p'not lp' by simp
  have last: "free_entry_data ?p' ?t k = ?t"
    using lbp by (simp add: free_entry_data_def length_new_entries nth_append grub_free_null)
  have un: "unat (of_nat k + 1 :: u32) = Suc k"
  proof -
    have "unat (of_nat (Suc k) :: u32) = Suc k" using small by (simp only: unat_of_nat) simp
    then show ?thesis by (simp add: add.commute)
  qed
  have loop1: "foldl (free_entry_data ?p') ?s1' [0 ..< Suc k] = ?t"
    using f last by simp
  have final_b: "store b ?p' None = blocks s @ replicate (2 * k + 1) None"
  proof (rule lookup_ext)
    show "length (store b ?p' None) = length (blocks s @ replicate (2 * k + 1) None)"
      using lb len1 by (simp add: length_store)
    show "\<forall>c. lookup (store b ?p' None) c = lookup (blocks s @ replicate (2 * k + 1) None) c"
    proof
      fix c
      have rp: "0 < ?p' \<and> ?p' \<le> length b" using lb len1 by simp
      consider (out) "c = 0 \<or> ?L + 2 * k + 1 < c" | (lo) "0 < c" "c \<le> ?L"
        | (hi) "?L < c" "c \<le> ?L + 2 * k + 1" by linarith
      then show "lookup (store b ?p' None) c = lookup (blocks s @ replicate (2 * k + 1) None) c"
      proof cases
        case out
        then show ?thesis using lb len1 by (simp add: lookup_out length_store)
      next
        case lo
        have "c \<noteq> ?p'" using lo by simp
        then have "lookup (store b ?p' None) c = lookup b c" using rp by (simp add: lookup_store_other)
        also have "\<dots> = lookup (blocks s1) c" using cb lo by auto
        also have "\<dots> = lookup (blocks sk) c" using lo lenk by (intro old) auto
        also have "\<dots> = lookup (blocks s) c" using g lo by (simp add: grown_def)
        finally show ?thesis using lo by (simp add: lookup_append_old)
      next
        case hi
        have rhs: "lookup (blocks s @ replicate (2 * k + 1) None) c = None"
          using hi(1) by (rule lookup_append_free)
        have "lookup (store b ?p' None) c = None"
        proof (cases "c = ?p'")
          case True
          then show ?thesis using rp by (simp add: lookup_store_same)
        next
          case False
          then have e: "lookup (store b ?p' None) c = lookup b c" using rp by (simp add: lookup_store_other)
          show ?thesis
          proof (cases "c \<in> ?a ` {..<k}")
            case True
            then show ?thesis using e cb by simp
          next
            case nin: False
            then have e2: "lookup b c = lookup (blocks s1) c" using cb by simp
            have "\<exists>i. c = ?L + 2 * i + 1 \<and> i < k"
            proof -
              obtain m where m: "c = ?L + m" "0 < m" "m \<le> 2 * k + 1" using hi
                by (metis add.assoc less_imp_add_positive nat_add_left_cancel_le)
              have "m \<noteq> 2 * k + 1" using False m by simp
              moreover have "\<not> (\<exists>i<k. m = 2 * i + 2)" using nin m by auto
              ultimately show ?thesis using m by (intro exI [of _ "(m - 1) div 2"]) presburger
            qed
            then obtain i where i: "c = ?L + 2 * i + 1" "i < k" by blast
            show ?thesis
            proof (cases "Suc i = k")
              case True
              then have "c = ?pk" using i by auto
              moreover have "lookup (blocks s1) ?pk = None"
                using True pk_le by (simp add: b1 lookup_append_old length_release lookup_release_same)
              ultimately show ?thesis using e e2 by simp
            next
              case ne: False
              then have si: "Suc i < k" using i by simp
              have "c \<noteq> ?pk" using i si by auto
              moreover have "c \<le> length (blocks sk)" using i lenk by simp
              ultimately have "lookup (blocks s1) c = lookup (blocks sk) c" by (rule old [rotated])
              also have "\<dots> = None" using g si i by (simp add: grown_def)
              finally show ?thesis using e e2 by simp
            qed
          qed
        qed
        then show ?thesis using rhs by simp
      qed
    qed
  qed
  have ks1: "dbx (pks_keystore s1) = 0" "dbx_entries (pks_keystore s1) = 0"
    using ks by (simp_all add: s1_def failed_round_def)
  have "grub_pks_tmp_free ?s1' =
          ?t\<lparr>blocks := store b ?p' None, freed := ?p' # freed ?t, pks_keystore := pks_keystore_zero\<rparr>"
    using lbp ks1 un loop1
    by (simp add: grub_pks_tmp_free_def Let_def grub_free_def grub_free_null del: upt_Suc)
  then show ?thesis using final_b by simp
qed

lemma payload_failure:
  assumes sz: "16 \<le> unat signature_size"
    and N: "unat esl_sz = N * unat signature_size"
    and inb: "N * unat signature_size \<le> length esl_data"
    and lt: "length esl_data < 2 ^ 32"
    and fits: "N * 24 < 2 ^ 32"
    and kN: "k < N"
    and al: "allocs_succeed (2 * k + 1) s"
    and no: "2 * k + 1 < length (plan s)" "\<not> plan s ! (2 * k + 1)"
    and empty: "pks_keystore s = pks_keystore_zero"
  shows "\<exists>s1. esl_to_esd' esl_data esl_sz signature_size guidp 0 0 s =
              Some (GRUB_ERR_OUT_OF_MEMORY, length (blocks s) + 2 * k + 1, of_nat k + 1, s1)
          \<and> lookup (blocks s1) (length (blocks s) + 2 * k + 1)
               = Some (Slots (new_entries (length (blocks s)) guidp (signature_size - 16) k
                              @ [unassigned\<lparr>data := Some 0\<rparr>]))
          \<and> (\<forall>i<k. lookup (blocks s1) (length (blocks s) + 2 * i + 2)
                       = Some (Buf (payload esl_data 0 (unat signature_size) i)))
          \<and> fault s1 = fault s \<and> grub_errno s1 = GRUB_ERR_OUT_OF_MEMORY
          \<and> grub_pks_tmp_free
               (s1\<lparr>pks_keystore := (pks_keystore s1)\<lparr>db := length (blocks s) + 2 * k + 1,
                                                      db_entries := of_nat k + 1\<rparr>\<rparr>)
             = s1\<lparr>blocks := blocks s @ replicate (2 * k + 1) None,
                  freed := (length (blocks s) + 2 * k + 1)
                             # rev (map (\<lambda>i. length (blocks s) + 2 * i + 2) [0 ..< k]) @ freed s1,
                  pks_keystore := pks_keystore_zero\<rparr>"
proof -
  let ?L = "length (blocks s)"
  let ?pk = "if k = 0 then 0 else ?L + 2 * k - 1"
  let ?es = "new_entries ?L guidp (signature_size - 16) k"
  let ?pl = "payload esl_data 0 (unat signature_size)"
  have arr: "sd_array s 0 0 []" by (simp add: sd_array_def)
  have fits': "(unat (0 :: u32) + N) * 24 < 2 ^ 32" using fits by simp
  from esl_to_esd'_payload_fails [OF arr sz N inb lt fits' kN al no, of guidp]
  obtain sk where g: "grown s 0 [] guidp (signature_size - 16) ?pl k sk"
    and e: "esl_to_esd' esl_data esl_sz signature_size guidp 0 0 s =
              Some (GRUB_ERR_OUT_OF_MEMORY, ?L + 2 * k + 1, 0 + of_nat k + 1,
                    failed_round sk ?pk ([] @ ?es))" by blast
  let ?s1 = "failed_round sk ?pk ?es"
  have lenk: "length (blocks sk) = ?L + 2 * k" using g by (simp add: grown_def)
  have c1: "lookup (blocks ?s1) (?L + 2 * k + 1) = Some (Slots (?es @ [unassigned\<lparr>data := Some 0\<rparr>]))"
    by (simp add: failed_round_def lookup_new1 length_release lenk)
  have c2: "\<forall>i<k. lookup (blocks ?s1) (?L + 2 * i + 2) = Some (Buf (?pl i))"
  proof (intro allI impI)
    fix i assume i: "i < k"
    have "?L + 2 * i + 2 \<noteq> ?pk" using i by (cases "k = 0") (simp, simp, presburger)
    moreover have "?L + 2 * i + 2 \<le> length (blocks sk)" using i lenk by simp
    ultimately have "lookup (blocks ?s1) (?L + 2 * i + 2) = lookup (blocks sk) (?L + 2 * i + 2)"
      by (simp add: failed_round_def lookup_append_old length_release lookup_release_other)
    then show "lookup (blocks ?s1) (?L + 2 * i + 2) = Some (Buf (?pl i))" using g i by (simp add: grown_def)
  qed
  have c3: "fault ?s1 = fault s" "grub_errno ?s1 = GRUB_ERR_OUT_OF_MEMORY"
    using g by (simp_all add: failed_round_def grown_def)
  have small: "k + 1 < 2 ^ 32" using fits kN by simp
  have ks: "dbx (pks_keystore sk) = 0" "dbx_entries (pks_keystore sk) = 0"
    using g empty by (simp_all add: grown_def statics_def zero_fields)
  note t = teardown_after_failure [OF g small ks]
  show ?thesis using e c1 c2 c3 t by simp
qed


text \<open>
  C2, as the code has it. Let a region hold \<open>N\<close> entries, let the parser start from
  the empty array, and let the allocation of a payload buffer fail after \<open>k < N\<close>
  entries were completed. Then \<^verbatim>\<open>_esl_to_esd\<close> returns
  \<^verbatim>\<open>GRUB_ERR_OUT_OF_MEMORY\<close> and the count it writes is \<open>k + 1\<close>: the \<open>k\<close>
  complete entries and the slot whose payload allocation failed. The \<open>k\<close> payload
  buffers hold the \<open>k\<close> payloads, and \<^verbatim>\<open>grub_pks_tmp_free\<close> on the keystore that
  holds this array frees exactly these \<open>k\<close> buffers and then the array: afterwards
  every block the parser allocated is free, every block that existed before is as it
  was, and no fault was raised.
\<close>

theorem payload_failure_count:
  assumes sz: "16 < unat signature_size"
    and N: "unat esl_sz = N * unat signature_size"
    and inb: "N * unat signature_size \<le> length esl_data"
    and lt: "length esl_data < 2 ^ 32"
    and fits: "N * 24 < 2 ^ 32"
    and kN: "k < N"
    and al: "allocs_succeed (2 * k + 1) s"
    and no: "2 * k + 1 < length (plan s)" "\<not> plan s ! (2 * k + 1)"
    and empty: "pks_keystore s = pks_keystore_zero"
  shows "\<exists>p s1. esl_to_esd' esl_data esl_sz signature_size guidp 0 0 s =
              Some (GRUB_ERR_OUT_OF_MEMORY, p, of_nat k + 1, s1)
          \<and> (\<forall>i<k. lookup (blocks s1) (length (blocks s) + 2 * i + 2)
                       = Some (Buf (payload esl_data 0 (unat signature_size) i)))
          \<and> freed (grub_pks_tmp_free
                      (s1\<lparr>pks_keystore := (pks_keystore s1)\<lparr>db := p, db_entries := of_nat k + 1\<rparr>\<rparr>))
               = p # rev (map (\<lambda>i. length (blocks s) + 2 * i + 2) [0 ..< k]) @ freed s1
          \<and> blocks (grub_pks_tmp_free
                      (s1\<lparr>pks_keystore := (pks_keystore s1)\<lparr>db := p, db_entries := of_nat k + 1\<rparr>\<rparr>))
               = blocks s @ replicate (2 * k + 1) None
          \<and> fault (grub_pks_tmp_free
                      (s1\<lparr>pks_keystore := (pks_keystore s1)\<lparr>db := p, db_entries := of_nat k + 1\<rparr>\<rparr>))
               = fault s"
proof -
  have sz': "16 \<le> unat signature_size" using sz by simp
  from payload_failure [OF sz' N inb lt fits kN al no empty, of guidp]
  obtain s1 where h: "esl_to_esd' esl_data esl_sz signature_size guidp 0 0 s =
              Some (GRUB_ERR_OUT_OF_MEMORY, length (blocks s) + 2 * k + 1, of_nat k + 1, s1)"
    "\<forall>i<k. lookup (blocks s1) (length (blocks s) + 2 * i + 2)
                       = Some (Buf (payload esl_data 0 (unat signature_size) i))"
    "fault s1 = fault s"
    "grub_pks_tmp_free
               (s1\<lparr>pks_keystore := (pks_keystore s1)\<lparr>db := length (blocks s) + 2 * k + 1,
                                                      db_entries := of_nat k + 1\<rparr>\<rparr>)
             = s1\<lparr>blocks := blocks s @ replicate (2 * k + 1) None,
                  freed := (length (blocks s) + 2 * k + 1)
                             # rev (map (\<lambda>i. length (blocks s) + 2 * i + 2) [0 ..< k]) @ freed s1,
                  pks_keystore := pks_keystore_zero\<rparr>" by blast
  show ?thesis
    apply (rule exI [of _ "length (blocks s) + 2 * k + 1"])
    apply (rule exI [of _ s1])
    using h apply simp
    done
qed

theorem payload_failure_count_witness:
  "(16 :: nat) < unat (17 :: size_t) \<and> unat (34 :: size_t) = 2 * unat (17 :: size_t)
   \<and> allocs_succeed (2 * 1 + 1) (boot [True, True, True, False])
   \<and> \<not> plan (boot [True, True, True, False]) ! (2 * 1 + 1)
   \<and> (\<exists>p s1. esl_to_esd' (replicate 34 0) 34 17 (replicate 16 7) 0 0 (boot [True, True, True, False]) =
              Some (GRUB_ERR_OUT_OF_MEMORY, p, 2, s1)
          \<and> lookup (blocks s1) (Suc (Suc 0)) = Some (Buf [0])
          \<and> freed (grub_pks_tmp_free
                      (s1\<lparr>pks_keystore := (pks_keystore s1)\<lparr>db := p, db_entries := 2\<rparr>\<rparr>))
               = p # Suc (Suc 0) # freed s1
          \<and> blocks (grub_pks_tmp_free
                      (s1\<lparr>pks_keystore := (pks_keystore s1)\<lparr>db := p, db_entries := 2\<rparr>\<rparr>))
               = replicate 3 None
          \<and> \<not> fault (grub_pks_tmp_free
                      (s1\<lparr>pks_keystore := (pks_keystore s1)\<lparr>db := p, db_entries := 2\<rparr>\<rparr>)))"
proof -
  have h: "(16 :: nat) < unat (17 :: size_t)" "unat (34 :: size_t) = 2 * unat (17 :: size_t)"
    "2 * unat (17 :: size_t) \<le> length (replicate 34 (0 :: u8))"
    "length (replicate 34 (0 :: u8)) < 2 ^ 32" "(2 :: nat) * 24 < 2 ^ 32" "(1 :: nat) < 2"
    "allocs_succeed (2 * 1 + 1) (boot [True, True, True, False])"
    "2 * 1 + 1 < length (plan (boot [True, True, True, False]))"
    "\<not> plan (boot [True, True, True, False]) ! (2 * 1 + 1)"
    "pks_keystore (boot [True, True, True, False]) = pks_keystore_zero"
    by (simp_all add: allocs_succeed_def boot_def)
  show ?thesis
    using payload_failure_count [OF h, of "replicate 16 7"] h(1,2,7,9)
    by (auto simp add: boot_def payload_def)
qed

text \<open>
  The claim as the spec states it (the count written equals the number \<open>K\<close> of
  complete entries) fails: for a region of two entries with the second payload
  allocation failing, one entry is complete and the count written is 2.
\<close>

theorem payload_failure_count_counterexample:
  "map_option fst
     (esl_to_esd' (replicate 34 0) 34 17 (replicate 16 7) 0 0 (boot [True, True, True, False]))
     = Some GRUB_ERR_OUT_OF_MEMORY
   \<and> map_option (fst \<circ> snd \<circ> snd)
       (esl_to_esd' (replicate 34 0) 34 17 (replicate 16 7) 0 0 (boot [True, True, True, False]))
     = Some 2
   \<and> (2 :: u32) \<noteq> 1"
proof -
  have h: "(16 :: nat) \<le> unat (17 :: size_t)" "unat (34 :: size_t) = 2 * unat (17 :: size_t)"
    "2 * unat (17 :: size_t) \<le> length (replicate 34 (0 :: u8))"
    "length (replicate 34 (0 :: u8)) < 2 ^ 32" "(2 :: nat) * 24 < 2 ^ 32" "(1 :: nat) < 2"
    "allocs_succeed (2 * 1 + 1) (boot [True, True, True, False])"
    "2 * 1 + 1 < length (plan (boot [True, True, True, False]))"
    "\<not> plan (boot [True, True, True, False]) ! (2 * 1 + 1)"
    "pks_keystore (boot [True, True, True, False]) = pks_keystore_zero"
    by (simp_all add: allocs_succeed_def boot_def)
  from payload_failure [OF h, of "replicate 16 7"] show ?thesis by auto
qed


subsection \<open>Parsing well-formed signature lists\<close>

lemma buffers_Nil: "buffers [] = []"
  by (simp add: buffers_def)

lemma buffers_append: "buffers (xs @ ys) = buffers xs @ buffers ys"
  by (simp add: buffers_def)

lemma buffers_new_entries:
  "buffers (new_entries l g dsize k) = map (\<lambda>i. l + 2 * i + 2) [0 ..< k]"
proof (induction k)
  case 0
  show ?case by (simp add: new_entries_def buffers_def)
next
  case (Suc k)
  have "buffers [new_entry g dsize (l + 2 * k + 2)] = [l + 2 * k + 2]"
    by (simp add: buffers_def new_entry_def)
  then show ?case using Suc by (simp add: new_entries_Suc buffers_append)
qed

lemma data_new_entries: "y \<in> set (new_entries l g dsize k) \<Longrightarrow> data y \<noteq> None"
  by (auto simp add: new_entries_def new_entry_def)

lemma new_address:
  assumes "l < (c :: nat)"
  shows "\<exists>i. c = l + 2 * i + 1 \<or> c = l + 2 * i + 2"
  using assms by presburger

lemma grown_appended:
  assumes arr: "sd_array s sd n xs"
    and g: "grown s sd xs gd dsize pl N s'"
  shows "appended s sd xs s' (if N = 0 then sd else length (blocks s) + 2 * N - 1)
           (new_entries (length (blocks s)) gd dsize N)
           (map (\<lambda>i. (Some gd, Some dsize, Some (pl i))) [0 ..< N])"
proof -
  let ?L = "length (blocks s)"
  let ?p = "if N = 0 then sd else ?L + 2 * N - 1"
  let ?es = "new_entries ?L gd dsize N"
  have sdL: "sd \<le> ?L"
    using arr lookup_Some_range [of "blocks s" sd] by (auto simp add: sd_array_def split: if_splits)
  have len: "length (blocks s') = ?L + 2 * N" using g by (simp add: grown_def)
  have pay: "\<forall>i < N. lookup (blocks s') (?L + 2 * i + 2) = Some (Buf (pl i))"
    using g by (simp add: grown_def)
  have mid: "\<forall>i. Suc i < N \<longrightarrow> lookup (blocks s') (?L + 2 * i + 1) = None"
    using g by (simp add: grown_def)
  have c1: "if ?p = 0 then xs @ ?es = [] else lookup (blocks s') ?p = Some (Slots (xs @ ?es))"
  proof (cases "N = 0")
    case True
    then show ?thesis using arr g by (auto simp add: grown_def sd_array_def new_entries_def)
  next
    case False
    then show ?thesis using g by (simp add: grown_def)
  qed
  have c2: "map (sd_view s') ?es = map (\<lambda>i. (Some gd, Some dsize, Some (pl i))) [0 ..< N]"
    using pay by (simp add: new_entries_def sd_view_def new_entry_def)
  have c3: "\<forall>y \<in> set ?es. data y \<noteq> None" using data_new_entries by blast
  have c4: "distinct (buffers ?es)"
    by (simp add: buffers_new_entries distinct_map inj_on_def)
  have c5: "\<forall>a \<in> set (buffers ?es). ?L < a \<and> (\<exists>bs. lookup (blocks s') a = Some (Buf bs))"
    using pay by (auto simp add: buffers_new_entries)
  have c6: "\<forall>c. ?L < c \<longrightarrow> lookup (blocks s') c \<noteq> None \<longrightarrow> c = ?p \<or> c \<in> set (buffers ?es)"
  proof (intro allI impI)
    fix c assume c: "?L < c" "lookup (blocks s') c \<noteq> None"
    then obtain y where "lookup (blocks s') c = Some y" by auto
    then have cle: "c \<le> ?L + 2 * N" using lookup_Some_range [of "blocks s'" c y] len by simp
    from new_address [OF c(1)] obtain i where i: "c = ?L + 2 * i + 1 \<or> c = ?L + 2 * i + 2" by blast
    then show "c = ?p \<or> c \<in> set (buffers ?es)"
    proof
      assume o: "c = ?L + 2 * i + 1"
      then have iN: "i < N" using cle by simp
      have "\<not> Suc i < N" using mid c(2) o by auto
      then have "N = Suc i" using iN by simp
      then show ?thesis using o by simp
    next
      assume e: "c = ?L + 2 * i + 2"
      then have "i < N" using cle by simp
      then show ?thesis using e by (simp add: buffers_new_entries)
    qed
  qed
  have c7: "\<forall>a \<le> ?L. a \<noteq> sd \<longrightarrow> lookup (blocks s') a = lookup (blocks s) a"
    using g by (simp add: grown_def)
  have c8: "?p \<noteq> sd \<longrightarrow> lookup (blocks s') sd = None"
  proof (cases "N = 0")
    case True
    then show ?thesis by simp
  next
    case False
    then show ?thesis using g by (cases "sd = 0") (simp_all add: grown_def lookup_out)
  qed
  have c9: "length (blocks s) \<le> length (blocks s')" using len by simp
  have c10: "?p = sd \<or> ?L < ?p" by (cases "N = 0") auto
  have c11: "plan s' = drop (2 * length ?es) (plan s)"
    using g by (simp add: grown_def length_new_entries)
  have c12: "fault s' = fault s" "statics s' = statics s" using g by (simp_all add: grown_def)
  show ?thesis
    unfolding appended_def
    using c1 c2 c3 c4 c5 c6 c7 c8 sdL c9 c10 c11 c12 by (intro conjI)
qed

lemma payload_drop: "payload (drop off buf) 0 sz = payload buf off sz"
  by (rule ext) (simp add: payload_def ac_simps)

lemma esl_to_esd_ok:
  assumes wf: "esl_well_formed esl N"
    and lt: "length esl < 2 ^ 32"
    and nx: "esl_signature_list_size esl \<le> next_esl"
    and arr: "sd_array s sd n xs"
    and fits: "(unat n + N) * 24 < 2 ^ 32"
    and al: "allocs_succeed (2 * N) s"
  shows "\<exists>p' s' ys. esl_to_esd (Some esl) next_esl sd n s =
            Some (GRUB_ERR_NONE, esl_signature_list_size esl, p', n + of_nat N, s')
          \<and> length ys = N \<and> appended s sd xs s' p' ys (esl_entries esl N)"
proof -
  let ?ls = "esl_signature_list_size esl"
  let ?hs = "esl_signature_header_size esl"
  let ?sz = "esl_signature_size esl"
  let ?off = "28 + unat ?hs"
  from wf have sz16: "16 < unat ?sz"
    and eq: "unat ?ls = 28 + unat ?hs + N * unat ?sz"
    and le: "unat ?ls \<le> length esl"
    by (simp_all add: esl_well_formed_def)
  have u28: "unat (sizeof_grub_esl_t :: size_t) = 28" by (simp add: sizeof_grub_esl_t_def)
  have lsb: "unat ?ls < 2 ^ 32" using le lt by simp
  have g1: "\<not> next_esl < sizeof_grub_esl_t"
    using nx eq by (simp add: word_less_nat_alt word_le_nat_alt u28)
  have g2: "\<not> (?ls < sizeof_grub_esl_t \<or> ?ls > next_esl)"
    using nx eq by (simp add: word_less_nat_alt word_le_nat_alt u28)
  have s0: "s\<lparr>fault := fault s \<or> length esl < unat (sizeof_grub_esl_t :: size_t)\<rparr> = s"
    using le eq by (simp add: u28)
  have off: "unat (sizeof_grub_esl_t + ?hs) = ?off"
    using eq lsb by (simp add: unat_word_ariths u28)
  have offle: "sizeof_grub_esl_t + ?hs \<le> ?ls"
    using off eq by (simp add: word_le_nat_alt)
  have rem: "unat (?ls - (sizeof_grub_esl_t + ?hs)) = N * unat ?sz"
    using offle off eq by (simp add: unat_sub)
  have inb: "N * unat ?sz \<le> length (drop ?off esl)" using le eq by simp
  have lt': "length (drop ?off esl) < 2 ^ 32" using lt by simp
  have sz: "16 \<le> unat ?sz" using sz16 by simp
  from esl_to_esd'_ok [OF arr sz rem inb lt' fits al, of "esl_signature_type esl"]
  obtain s' where r: "esl_to_esd' (drop ?off esl) (?ls - (sizeof_grub_esl_t + ?hs)) ?sz (esl_signature_type esl) sd n s =
            Some (GRUB_ERR_NONE, (if N = 0 then sd else length (blocks s) + 2 * N - 1), n + of_nat N, s')"
    and g: "grown s sd xs (esl_signature_type esl) (?sz - 16) (payload esl ?off (unat ?sz)) N s'"
    by (auto simp add: payload_drop)
  have res: "esl_to_esd (Some esl) next_esl sd n s =
     Some (GRUB_ERR_NONE, ?ls, (if N = 0 then sd else length (blocks s) + 2 * N - 1), n + of_nat N, s')"
    using g1 g2 by (simp add: esl_to_esd_def Let_def s0 off r)
  have app: "appended s sd xs s' (if N = 0 then sd else length (blocks s) + 2 * N - 1)
           (new_entries (length (blocks s)) (esl_signature_type esl) (?sz - 16) N) (esl_entries esl N)"
    using grown_appended [OF arr g] by (simp add: esl_entries_def)
  show ?thesis using res app length_new_entries by blast
qed

lemma header_append:
  assumes "28 \<le> length L"
  shows "esl_signature_type (L @ r) = esl_signature_type L"
    and "esl_signature_list_size (L @ r) = esl_signature_list_size L"
    and "esl_signature_header_size (L @ r) = esl_signature_header_size L"
    and "esl_signature_size (L @ r) = esl_signature_size L"
  using assms
  by (simp_all add: esl_signature_type_def esl_signature_list_size_def
        esl_signature_header_size_def esl_signature_size_def sizeof_grub_packed_guid_t_def)

lemma wf_length: "esl_well_formed L N \<Longrightarrow> 28 \<le> length L"
  by (simp add: esl_well_formed_def)

lemma wf_append: "esl_well_formed L N \<Longrightarrow> esl_well_formed (L @ r) N"
  using header_append [of L r] by (simp add: esl_well_formed_def)

lemma payload_append:
  assumes "off + (i + 1) * sz \<le> length L" and "16 \<le> sz"
  shows "payload (L @ r) off sz i = payload L off sz i"
proof -
  have "off + i * sz + 16 + (sz - 16) \<le> length L" using assms by simp
  then show ?thesis by (simp add: payload_def)
qed

lemma payload_length:
  assumes "off + (i + 1) * sz \<le> length L" and "16 \<le> sz"
  shows "length (payload L off sz i) = sz - 16"
proof -
  have "off + i * sz + 16 + (sz - 16) \<le> length L" using assms by simp
  then show ?thesis by (simp add: payload_def)
qed

lemma wf_entry_inside:
  assumes wf: "esl_well_formed L N" and i: "i < N"
  shows "28 + unat (esl_signature_header_size L) + (i + 1) * unat (esl_signature_size L) \<le> length L"
proof -
  have "(i + 1) * unat (esl_signature_size L) \<le> N * unat (esl_signature_size L)"
    using i by (intro mult_right_mono) simp_all
  then show ?thesis using wf by (simp add: esl_well_formed_def)
qed

lemma entries_append:
  assumes wf: "esl_well_formed L N"
  shows "esl_entries (L @ r) N = esl_entries L N"
proof -
  have sz: "16 \<le> unat (esl_signature_size L)" using wf by (simp add: esl_well_formed_def)
  have "\<And>i. i < N \<Longrightarrow>
      payload (L @ r) (28 + unat (esl_signature_header_size L)) (unat (esl_signature_size L)) i
      = payload L (28 + unat (esl_signature_header_size L)) (unat (esl_signature_size L)) i"
    using wf_entry_inside [OF wf] sz by (intro payload_append) simp_all
  then show ?thesis
    using header_append [OF wf_length [OF wf], of r] by (simp add: esl_entries_def)
qed

lemma appended_trans:
  assumes a1: "appended s sd xs s1 p1 ys1 v1"
    and a2: "appended s1 p1 (xs @ ys1) s' p' ys2 v2"
  shows "appended s sd xs s' p' (ys1 @ ys2) (v1 @ v2)"
proof -
  let ?L = "length (blocks s)"
  let ?L1 = "length (blocks s1)"
  from a1 have arr1: "if p1 = 0 then xs @ ys1 = [] else lookup (blocks s1) p1 = Some (Slots (xs @ ys1))"
    and m1: "map (sd_view s1) ys1 = v1"
    and d1: "\<forall>y \<in> set ys1. data y \<noteq> None"
    and u1: "distinct (buffers ys1)"
    and b1: "\<forall>a \<in> set (buffers ys1). ?L < a \<and> (\<exists>bs. lookup (blocks s1) a = Some (Buf bs))"
    and k1: "\<forall>c. ?L < c \<longrightarrow> lookup (blocks s1) c \<noteq> None \<longrightarrow> c = p1 \<or> c \<in> set (buffers ys1)"
    and f1: "\<forall>a \<le> ?L. a \<noteq> sd \<longrightarrow> lookup (blocks s1) a = lookup (blocks s) a"
    and o1: "p1 \<noteq> sd \<longrightarrow> lookup (blocks s1) sd = None"
    and sdL: "sd \<le> ?L"
    and l1: "?L \<le> ?L1"
    and p1: "p1 = sd \<or> ?L < p1"
    and pl1: "plan s1 = drop (2 * length ys1) (plan s)"
    and r1: "fault s1 = fault s" "statics s1 = statics s"
    unfolding appended_def by blast+
  from a2 have arr2: "if p' = 0 then (xs @ ys1) @ ys2 = [] else lookup (blocks s') p' = Some (Slots ((xs @ ys1) @ ys2))"
    and m2: "map (sd_view s') ys2 = v2"
    and d2: "\<forall>y \<in> set ys2. data y \<noteq> None"
    and u2: "distinct (buffers ys2)"
    and b2: "\<forall>a \<in> set (buffers ys2). ?L1 < a \<and> (\<exists>bs. lookup (blocks s') a = Some (Buf bs))"
    and k2: "\<forall>c. ?L1 < c \<longrightarrow> lookup (blocks s') c \<noteq> None \<longrightarrow> c = p' \<or> c \<in> set (buffers ys2)"
    and f2: "\<forall>a \<le> ?L1. a \<noteq> p1 \<longrightarrow> lookup (blocks s') a = lookup (blocks s1) a"
    and o2: "p' \<noteq> p1 \<longrightarrow> lookup (blocks s') p1 = None"
    and l2: "?L1 \<le> length (blocks s')"
    and p2: "p' = p1 \<or> ?L1 < p'"
    and pl2: "plan s' = drop (2 * length ys2) (plan s1)"
    and r2: "fault s' = fault s1" "statics s' = statics s1"
    unfolding appended_def by blast+
  have old: "a \<le> ?L1 \<and> a \<noteq> p1 \<and> 0 < a" if "a \<in> set (buffers ys1)" for a
  proof -
    from that b1 obtain bs where a: "?L < a" "lookup (blocks s1) a = Some (Buf bs)" by blast
    from a(2) have "0 < a \<and> a \<le> ?L1" by (rule lookup_Some_range)
    moreover have "a \<noteq> p1" using arr1 a(2) calculation by (cases "p1 = 0") auto
    ultimately show ?thesis by simp
  qed
  have same: "lookup (blocks s') a = lookup (blocks s1) a" if "a \<in> set (buffers ys1)" for a
    using old [OF that] f2 by simp
  have keep: "sd_view s' y = sd_view s1 y" if y: "y \<in> set ys1" for y
  proof -
    from y d1 obtain a where a: "data y = Some a" by auto
    show ?thesis
    proof (cases "a = 0")
      case True
      then show ?thesis using a by (simp add: sd_view_def lookup_out)
    next
      case False
      then have "a \<in> set (buffers ys1)" using a y by (force simp add: buffers_def)
      from same [OF this] show ?thesis using a by (simp add: sd_view_def)
    qed
  qed
  have c2: "map (sd_view s') (ys1 @ ys2) = v1 @ v2" using keep m1 m2 by auto
  have c3: "\<forall>y \<in> set (ys1 @ ys2). data y \<noteq> None" using d1 d2 by auto
  have c4: "distinct (buffers (ys1 @ ys2))"
  proof -
    have "set (buffers ys1) \<inter> set (buffers ys2) = {}"
    proof (rule ccontr)
      assume "set (buffers ys1) \<inter> set (buffers ys2) \<noteq> {}"
      then obtain a where "a \<in> set (buffers ys1)" "a \<in> set (buffers ys2)" by auto
      then show False using old [of a] b2 by auto
    qed
    then show ?thesis using u1 u2 by (simp add: buffers_append)
  qed
  have c5: "\<forall>a \<in> set (buffers (ys1 @ ys2)). ?L < a \<and> (\<exists>bs. lookup (blocks s') a = Some (Buf bs))"
  proof
    fix a assume "a \<in> set (buffers (ys1 @ ys2))"
    then consider "a \<in> set (buffers ys1)" | "a \<in> set (buffers ys2)" by (auto simp add: buffers_append)
    then show "?L < a \<and> (\<exists>bs. lookup (blocks s') a = Some (Buf bs))"
    proof cases
      case 1
      then show ?thesis using b1 same [OF 1] by auto
    next
      case 2
      then show ?thesis using b2 l1 by fastforce
    qed
  qed
  have c6: "\<forall>c. ?L < c \<longrightarrow> lookup (blocks s') c \<noteq> None \<longrightarrow> c = p' \<or> c \<in> set (buffers (ys1 @ ys2))"
  proof (intro allI impI)
    fix c assume c: "?L < c" "lookup (blocks s') c \<noteq> None"
    show "c = p' \<or> c \<in> set (buffers (ys1 @ ys2))"
    proof (cases "?L1 < c")
      case True
      then show ?thesis using k2 c(2) by (auto simp add: buffers_append)
    next
      case False
      show ?thesis
      proof (cases "c = p1")
        case True
        then show ?thesis using o2 c(2) by auto
      next
        case n: False
        then have "lookup (blocks s') c = lookup (blocks s1) c" using f2 False by simp
        then have "lookup (blocks s1) c \<noteq> None" using c(2) by simp
        then show ?thesis using k1 c(1) n by (auto simp add: buffers_append)
      qed
    qed
  qed
  have c7: "\<forall>a \<le> ?L. a \<noteq> sd \<longrightarrow> lookup (blocks s') a = lookup (blocks s) a"
  proof (intro allI impI)
    fix a assume a: "a \<le> ?L" "a \<noteq> sd"
    then have "a \<noteq> p1" using p1 by auto
    then have "lookup (blocks s') a = lookup (blocks s1) a" using f2 a(1) l1 by simp
    then show "lookup (blocks s') a = lookup (blocks s) a" using f1 a by simp
  qed
  have c8: "p' \<noteq> sd \<longrightarrow> lookup (blocks s') sd = None"
  proof
    assume n: "p' \<noteq> sd"
    show "lookup (blocks s') sd = None"
    proof (cases "p1 = sd")
      case True
      then show ?thesis using o2 n by simp
    next
      case False
      then have "lookup (blocks s1) sd = None" using o1 by simp
      moreover have "lookup (blocks s') sd = lookup (blocks s1) sd"
        using f2 False sdL l1 by simp
      ultimately show ?thesis by simp
    qed
  qed
  have c9: "?L \<le> length (blocks s')" using l1 l2 by simp
  have c10: "p' = sd \<or> ?L < p'" using p1 p2 l1 by auto
  have c11: "plan s' = drop (2 * length (ys1 @ ys2)) (plan s)"
    using pl1 pl2 by (simp add: add.commute distrib_left)
  have c12: "fault s' = fault s" "statics s' = statics s" using r1 r2 by simp_all
  have c1: "if p' = 0 then xs @ ys1 @ ys2 = [] else lookup (blocks s') p' = Some (Slots (xs @ ys1 @ ys2))"
    using arr2 by (cases "p' = 0") simp_all
  show ?thesis
    unfolding appended_def
    using c1 c2 c3 c4 c5 c6 c7 c8 sdL c9 c10 c11 c12 by (intro conjI)
qed

lemma appended_array:
  assumes a: "appended s sd xs s' p' ys vs" and arr: "sd_array s sd n xs"
    and fits: "unat n + length ys < 2 ^ 32"
  shows "sd_array s' p' (n + of_nat (length ys)) (xs @ ys)"
proof -
  have "unat (n + of_nat (length ys)) = unat n + length ys"
    using fits by (simp add: unat_word_ariths unat_of_nat)
  then show ?thesis using a arr by (auto simp add: appended_def sd_array_def split: if_splits)
qed

lemma exact_nonempty: "esl_exact L \<Longrightarrow> L \<noteq> []"
  by (auto simp add: esl_exact_def esl_well_formed_def)

lemma pks_loop_ok:
  assumes ne: "Ls \<noteq> []"
    and ex: "\<forall>L \<in> set Ls. esl_exact L"
    and lt: "length (concat Ls) < 2 ^ 32"
    and arr: "sd_array s sd n xs"
    and fits: "(unat n + sum_list (map esl_count Ls)) * 24 < 2 ^ 32"
    and al: "allocs_succeed (2 * sum_list (map esl_count Ls)) s"
  shows "\<exists>p' s' ys. pks_sd_from_esl_loop (Some (concat Ls)) (of_nat (length (concat Ls)))
                       (of_nat (length (concat Ls))) sd n s
                     = Some (GRUB_ERR_NONE, p', n + of_nat (sum_list (map esl_count Ls)), s')
          \<and> length ys = sum_list (map esl_count Ls)
          \<and> appended s sd xs s' p' ys (concat (map (\<lambda>L. esl_entries L (esl_count L)) Ls))"
  using assms
proof (induction Ls arbitrary: s sd n xs)
  case Nil
  then show ?case by simp
next
  case (Cons L Ls)
  let ?B = "L @ concat Ls"
  let ?c = "esl_count L"
  let ?t = "sum_list (map esl_count Ls)"
  let ?ls = "esl_signature_list_size L"
  from Cons.prems have exL: "esl_exact L" and exLs: "\<forall>L \<in> set Ls. esl_exact L" by simp_all
  from exL have wf: "esl_well_formed L ?c" and len: "unat ?ls = length L"
    by (simp_all add: esl_exact_def)
  have ltB: "length ?B < 2 ^ 32" using Cons.prems(3) by simp
  have hd: "esl_signature_list_size ?B = ?ls"
    using header_append [OF wf_length [OF wf]] by simp
  have lsw: "?ls = of_nat (length L)" by (simp add: len [symmetric])
  have uB: "unat (of_nat (length ?B) :: size_t) = length ?B"
    using ltB by (simp only: unat_of_nat) simp
  have nx: "esl_signature_list_size ?B \<le> of_nat (length ?B)"
    unfolding word_le_nat_alt hd uB len by simp
  have fits1: "(unat n + ?c) * 24 < 2 ^ 32" using Cons.prems(5) by simp
  have al1: "allocs_succeed (2 * ?c) s"
    using Cons.prems(6) by (rule allocs_succeed_mono) simp
  from esl_to_esd_ok [OF wf_append [OF wf] ltB nx Cons.prems(4) fits1 al1]
  obtain p1 s1 ys1 where r1: "esl_to_esd (Some ?B) (of_nat (length ?B)) sd n s =
            Some (GRUB_ERR_NONE, ?ls, p1, n + of_nat ?c, s1)"
    and l1: "length ys1 = ?c"
    and a1: "appended s sd xs s1 p1 ys1 (esl_entries L ?c)"
    by (auto simp add: hd entries_append [OF wf])
  have rest: "of_nat (length ?B) - ?ls = (of_nat (length (concat Ls)) :: size_t)"
    by (simp add: lsw)
  have dr: "drop (unat ?ls) ?B = concat Ls" by (simp add: len)
  show ?case
  proof (cases "Ls = []")
    case True
    have "pks_sd_from_esl_loop (Some (concat (L # Ls))) (of_nat (length (concat (L # Ls))))
            (of_nat (length (concat (L # Ls)))) sd n s
          = Some (GRUB_ERR_NONE, p1, n + of_nat ?c, s1)"
      apply (subst pks_sd_from_esl_loop.simps)
      using r1 True apply (simp add: Let_def lsw)
      done
    then show ?thesis using True l1 a1 by auto
  next
    case False
    then obtain M Ms where Ls: "Ls = M # Ms" by (cases Ls) auto
    then have "esl_exact M" using exLs by simp
    then have "M \<noteq> []" by (rule exact_nonempty)
    then have pos: "0 < length (concat Ls)" using Ls by simp
    have ltR: "length (concat Ls) < 2 ^ 32" using ltB by simp
    have wpos: "(0 :: size_t) < of_nat (length (concat Ls))"
      using pos ltR by (simp add: word_less_nat_alt unat_of_nat)
    have step: "pks_sd_from_esl_loop (Some (concat (L # Ls))) (of_nat (length (concat (L # Ls))))
            (of_nat (length (concat (L # Ls)))) sd n s
          = pks_sd_from_esl_loop (Some (concat Ls)) (of_nat (length (concat Ls)))
              (of_nat (length (concat Ls))) p1 (n + of_nat ?c) s1"
      apply (subst pks_sd_from_esl_loop.simps)
      using r1 wpos rest dr apply (simp add: Let_def)
      done
    have fitsn: "unat n + length ys1 < 2 ^ 32" using fits1 l1 by simp
    have arr1: "sd_array s1 p1 (n + of_nat ?c) (xs @ ys1)"
      using appended_array [OF a1 Cons.prems(4) fitsn] l1 by simp
    have un: "unat (n + of_nat ?c) = unat n + ?c"
      using fits1 by (simp add: unat_word_ariths unat_of_nat)
    have fits2: "(unat (n + of_nat ?c) + ?t) * 24 < 2 ^ 32"
      using Cons.prems(5) by (simp add: un add.assoc)
    have pl1: "plan s1 = drop (2 * ?c) (plan s)" using a1 l1 by (simp add: appended_def)
    have al2: "allocs_succeed (2 * ?t) s1"
      using Cons.prems(6) pl1 by (intro allocs_succeed_drop [of "2 * ?c" "2 * ?t" s s1]) simp_all
    from Cons.IH [OF False exLs ltR arr1 fits2 al2]
    obtain p' s' ys2 where r2: "pks_sd_from_esl_loop (Some (concat Ls)) (of_nat (length (concat Ls)))
                       (of_nat (length (concat Ls))) p1 (n + of_nat ?c) s1
                     = Some (GRUB_ERR_NONE, p', n + of_nat ?c + of_nat ?t, s')"
      and l2: "length ys2 = ?t"
      and a2: "appended s1 p1 (xs @ ys1) s' p' ys2 (concat (map (\<lambda>L. esl_entries L (esl_count L)) Ls))"
      by blast
    have a: "appended s sd xs s' p' (ys1 @ ys2)
               (esl_entries L ?c @ concat (map (\<lambda>L. esl_entries L (esl_count L)) Ls))"
      using a1 a2 by (rule appended_trans)
    show ?thesis
      apply (rule exI [of _ p'])
      apply (rule exI [of _ s'])
      apply (rule exI [of _ "ys1 @ ys2"])
      using step r2 l1 l2 a apply (simp add: add.assoc)
      done
  qed
qed

lemma sample_header:
  "esl_signature_type (sample_esl t a b) = replicate 16 t"
  "esl_signature_list_size (sample_esl t a b) = 62"
  "esl_signature_header_size (sample_esl t a b) = 0"
  "esl_signature_size (sample_esl t a b) = 17"
  "length (sample_esl t a b) = 62"
  by (simp_all add: sample_esl_def esl_signature_type_def esl_signature_list_size_def
        esl_signature_header_size_def esl_signature_size_def sizeof_grub_packed_guid_t_def
        grub_le_to_cpu32_def)

lemma sample_wf: "esl_well_formed (sample_esl t a b) 2"
  by (simp add: esl_well_formed_def sample_header)

lemma sample_count: "esl_count (sample_esl t a b) = 2"
  by (simp add: esl_count_def sample_header)

lemma sample_exact: "esl_exact (sample_esl t a b)"
  by (simp add: esl_exact_def sample_count sample_wf sample_header)

lemma sample_entries:
  "esl_entries (sample_esl t a b) 2 =
     [(Some (replicate 16 t), Some 1, Some [a]), (Some (replicate 16 t), Some 1, Some [b])]"
proof -
  have u: "[0 ..< 2 :: nat] = [0, Suc 0]" by (simp add: upt_rec)
  show ?thesis
    by (simp add: esl_entries_def sample_header payload_def u) (simp add: sample_esl_def)
qed

text \<open>
  C3. Parsing a well-formed signature list of \<open>N\<close> entries (per-entry size larger than
  the 16-byte entry header, the region after the headers exactly \<open>N\<close> entries long), with
  the allocator granting the \<open>2 * N\<close> requests the parse makes, succeeds and appends
  exactly \<open>N\<close> entries to the array: the array afterwards is the old one followed by
  \<open>N\<close> entries, the \<open>i\<close>-th of them carrying the type GUID of the list header, the
  per-entry size less 16 as its size, and a buffer holding that many payload bytes of
  the \<open>i\<close>-th entry. No read leaves the buffer.
\<close>

theorem esl_to_esd_appends:
  assumes wf: "esl_well_formed esl N"
    and lt: "length esl < 2 ^ 32"
    and nx: "esl_signature_list_size esl \<le> next_esl"
    and arr: "sd_array s sd n xs"
    and fits: "(unat n + N) * 24 < 2 ^ 32"
    and al: "allocs_succeed (2 * N) s"
  shows "\<exists>p' s' ys. esl_to_esd (Some esl) next_esl sd n s =
            Some (GRUB_ERR_NONE, esl_signature_list_size esl, p', n + of_nat N, s')
          \<and> sd_array s' p' (n + of_nat N) (xs @ ys) \<and> length ys = N
          \<and> map (sd_view s') ys = esl_entries esl N
          \<and> (\<forall>v \<in> set (esl_entries esl N).
                \<exists>bs. v = (Some (esl_signature_type esl), Some (esl_signature_size esl - 16), Some bs)
                     \<and> length bs = unat (esl_signature_size esl) - 16)
          \<and> fault s' = fault s"
proof -
  from esl_to_esd_ok [OF assms]
  obtain p' s' ys where r: "esl_to_esd (Some esl) next_esl sd n s =
            Some (GRUB_ERR_NONE, esl_signature_list_size esl, p', n + of_nat N, s')"
    and l: "length ys = N" and a: "appended s sd xs s' p' ys (esl_entries esl N)" by blast
  have "unat n + length ys < 2 ^ 32" using fits l by simp
  from appended_array [OF a arr this] have arr': "sd_array s' p' (n + of_nat N) (xs @ ys)"
    using l by simp
  have sz: "16 \<le> unat (esl_signature_size esl)" using wf by (simp add: esl_well_formed_def)
  have len: "\<forall>v \<in> set (esl_entries esl N).
                \<exists>bs. v = (Some (esl_signature_type esl), Some (esl_signature_size esl - 16), Some bs)
                     \<and> length bs = unat (esl_signature_size esl) - 16"
    using payload_length [OF wf_entry_inside [OF wf] sz] by (auto simp add: esl_entries_def)
  show ?thesis using r arr' l a len by (auto simp add: appended_def)
qed

theorem esl_to_esd_appends_witness:
  "esl_well_formed (sample_esl 7 1 2) 2
   \<and> (\<exists>p' s' ys. esl_to_esd (Some (sample_esl 7 1 2)) 62 0 0 (boot []) = Some (GRUB_ERR_NONE, 62, p', 2, s')
         \<and> sd_array s' p' 2 ys \<and> length ys = 2
         \<and> map (sd_view s') ys =
             [(Some (replicate 16 7), Some 1, Some [1]), (Some (replicate 16 7), Some 1, Some [2])]
         \<and> \<not> fault s')"
proof -
  have h: "esl_well_formed (sample_esl 7 1 2) 2" "length (sample_esl 7 1 2) < 2 ^ 32"
    "esl_signature_list_size (sample_esl 7 1 2) \<le> 62" "sd_array (boot []) 0 0 []"
    "(unat (0 :: u32) + 2) * 24 < 2 ^ 32" "allocs_succeed (2 * 2) (boot [])"
    by (simp_all add: sample_wf sample_header sd_array_def allocs_succeed_def boot_def)
  have fb: "fault (boot []) = False" by (simp add: boot_def)
  show ?thesis
    using esl_to_esd_appends [OF h] h(1)
    by (simp add: sample_header sample_entries fb)
qed

text \<open>
  C4. Unpacking a buffer that is the concatenation of well-formed signature lists, each
  of a declared size that is exactly its length, succeeds once all lists are consumed
  and appends to the array the entries of the first list, then those of the second,
  and so on to the last; the loop moves on by the declared size of each list and
  returns when no byte remains.
\<close>

theorem pks_sd_from_esl_concat:
  assumes ne: "Ls \<noteq> []"
    and ex: "\<forall>L \<in> set Ls. esl_exact L"
    and lt: "length (concat Ls) < 2 ^ 32"
    and arr: "sd_array s sd n xs"
    and fits: "(unat n + sum_list (map esl_count Ls)) * 24 < 2 ^ 32"
    and al: "allocs_succeed (2 * sum_list (map esl_count Ls)) s"
  shows "\<exists>p' s' ys. pks_sd_from_esl (Some (concat Ls)) (of_nat (length (concat Ls))) sd n s
                     = Some (GRUB_ERR_NONE, p', n + of_nat (sum_list (map esl_count Ls)), s')
          \<and> sd_array s' p' (n + of_nat (sum_list (map esl_count Ls))) (xs @ ys)
          \<and> map (sd_view s') ys = concat (map (\<lambda>L. esl_entries L (esl_count L)) Ls)
          \<and> fault s' = fault s"
proof -
  from pks_loop_ok [OF assms]
  obtain p' s' ys where r: "pks_sd_from_esl_loop (Some (concat Ls)) (of_nat (length (concat Ls)))
                       (of_nat (length (concat Ls))) sd n s
                     = Some (GRUB_ERR_NONE, p', n + of_nat (sum_list (map esl_count Ls)), s')"
    and l: "length ys = sum_list (map esl_count Ls)"
    and a: "appended s sd xs s' p' ys (concat (map (\<lambda>L. esl_entries L (esl_count L)) Ls))"
    by blast
  have "unat n + length ys < 2 ^ 32" using fits l by simp
  from appended_array [OF a arr this]
  have arr': "sd_array s' p' (n + of_nat (sum_list (map esl_count Ls))) (xs @ ys)"
    using l by simp
  show ?thesis using r arr' a by (auto simp add: appended_def pks_sd_from_esl_def)
qed

theorem pks_sd_from_esl_concat_witness:
  "esl_exact (sample_esl 7 1 2) \<and> esl_exact (sample_esl 8 3 4)
   \<and> (\<exists>p' s' ys. pks_sd_from_esl (Some (sample_esl 7 1 2 @ sample_esl 8 3 4)) 124 0 0 (boot [])
                     = Some (GRUB_ERR_NONE, p', 4, s')
         \<and> sd_array s' p' 4 ys
         \<and> map (sd_view s') ys =
             [(Some (replicate 16 7), Some 1, Some [1]), (Some (replicate 16 7), Some 1, Some [2]),
              (Some (replicate 16 8), Some 1, Some [3]), (Some (replicate 16 8), Some 1, Some [4])]
         \<and> \<not> fault s')"
proof -
  have h: "[sample_esl 7 1 2, sample_esl 8 3 4] \<noteq> []"
    "\<forall>L \<in> set [sample_esl 7 1 2, sample_esl 8 3 4]. esl_exact L"
    "length (concat [sample_esl 7 1 2, sample_esl 8 3 4]) < 2 ^ 32"
    "sd_array (boot []) 0 0 []"
    "(unat (0 :: u32) + sum_list (map esl_count [sample_esl 7 1 2, sample_esl 8 3 4])) * 24 < 2 ^ 32"
    "allocs_succeed (2 * sum_list (map esl_count [sample_esl 7 1 2, sample_esl 8 3 4])) (boot [])"
    by (simp_all add: sample_exact sample_count sample_header sd_array_def allocs_succeed_def boot_def)
  have fb: "fault (boot []) = False" by (simp add: boot_def)
  show ?thesis
    using pks_sd_from_esl_concat [OF h] sample_exact [of 7 1 2] sample_exact [of 8 3 4]
    by (simp add: sample_header sample_count sample_entries fb)
qed

subsection \<open>Releasing an array of entries\<close>

lemma buffers_snoc:
  "buffers (zs @ [z]) = buffers zs @ (case data z of None \<Rightarrow> [] | Some a \<Rightarrow> if a = 0 then [] else [a])"
  by (simp add: buffers_def split: option.splits)

lemma releasable_snoc:
  assumes "releasable s (zs @ [z])"
  shows "releasable s zs"
  using assms by (auto simp add: releasable_def buffers_append)

lemma free_slots:
  assumes p: "lookup (blocks s) p = Some (Slots (zs @ rest))"
    and r: "releasable s zs"
  shows "\<exists>b. foldl (free_entry_data p) s [0 ..< length zs]
               = s\<lparr>blocks := b, freed := rev (buffers zs) @ freed s\<rparr>
          \<and> length b = length (blocks s)
          \<and> (\<forall>c. lookup b c = (if c \<in> set (buffers zs) then None else lookup (blocks s) c))"
  using p r
proof (induction zs arbitrary: rest rule: rev_induct)
  case Nil
  show ?case by (rule exI [of _ "blocks s"]) (simp add: buffers_Nil)
next
  case (snoc z zs)
  have p': "lookup (blocks s) p = Some (Slots (zs @ (z # rest)))" using snoc.prems(1) by simp
  have r': "releasable s zs" using snoc.prems(2) by (rule releasable_snoc)
  from snoc.IH [OF p' r'] obtain b where
    f: "foldl (free_entry_data p) s [0 ..< length zs]
               = s\<lparr>blocks := b, freed := rev (buffers zs) @ freed s\<rparr>"
    and lb: "length b = length (blocks s)"
    and cb: "\<forall>c. lookup b c = (if c \<in> set (buffers zs) then None else lookup (blocks s) c)" by blast
  let ?t = "s\<lparr>blocks := b, freed := rev (buffers zs) @ freed s\<rparr>"
  have pnot: "p \<notin> set (buffers zs)"
  proof
    assume "p \<in> set (buffers zs)"
    then obtain bs where "lookup (blocks s) p = Some (Buf bs)" using r' by (auto simp add: releasable_def)
    then show False using snoc.prems(1) by simp
  qed
  have lp: "lookup b p = Some (Slots (zs @ z # rest))" using cb pnot p' by simp
  from snoc.prems(2) obtain a where a: "data z = Some a" by (auto simp add: releasable_def)
  have fold: "foldl (free_entry_data p) s [0 ..< length (zs @ [z])] = free_entry_data p ?t (length zs)"
    using f by simp
  show ?case
  proof (cases "a = 0")
    case True
    have "free_entry_data p ?t (length zs) = ?t"
      using lp a True by (simp add: free_entry_data_def grub_free_null)
    moreover have "buffers (zs @ [z]) = buffers zs" using a True by (simp add: buffers_snoc)
    ultimately show ?thesis using fold lb cb by (intro exI [of _ b]) simp
  next
    case False
    have bz: "buffers (zs @ [z]) = buffers zs @ [a]" using a False by (simp add: buffers_snoc)
    have anot: "a \<notin> set (buffers zs)"
      using snoc.prems(2) bz by (simp add: releasable_def)
    obtain bs where live: "lookup (blocks s) a = Some (Buf bs)"
      using snoc.prems(2) bz by (auto simp add: releasable_def)
    then have lba: "lookup b a = Some (Buf bs)" using cb anot by simp
    then have rng: "0 < a \<and> a \<le> length b" by (rule lookup_Some_range)
    have step: "free_entry_data p ?t (length zs) =
       s\<lparr>blocks := store b a None, freed := rev (buffers (zs @ [z])) @ freed s\<rparr>"
      using lp a lba False bz by (simp add: free_entry_data_def grub_free_def)
    have c': "\<forall>c. lookup (store b a None) c = (if c \<in> set (buffers (zs @ [z])) then None else lookup (blocks s) c)"
    proof
      fix c
      show "lookup (store b a None) c = (if c \<in> set (buffers (zs @ [z])) then None else lookup (blocks s) c)"
      proof (cases "c = a")
        case True
        then show ?thesis using rng bz by (simp add: lookup_store_same)
      next
        case n: False
        then have "lookup (store b a None) c = lookup b c" using rng by (simp add: lookup_store_other)
        then show ?thesis using cb n bz by simp
      qed
    qed
    show ?thesis
      apply (rule exI [of _ "store b a None"])
      using fold step lb c' apply (simp add: length_store)
      done
  qed
qed

lemma free_array:
  assumes arr: "sd_array s p n zs"
    and r: "releasable s zs"
  shows "\<exists>b. foldl (free_entry_data p) s [0 ..< unat n]
               = s\<lparr>blocks := b, freed := rev (buffers zs) @ freed s\<rparr>
          \<and> length b = length (blocks s)
          \<and> (\<forall>c. lookup b c = (if c \<in> set (buffers zs) then None else lookup (blocks s) c))"
proof (cases "p = 0")
  case True
  then have "zs = []" "unat n = 0" using arr by (auto simp add: sd_array_def)
  then show ?thesis by (intro exI [of _ "blocks s"]) (simp add: buffers_Nil)
next
  case False
  then have "lookup (blocks s) p = Some (Slots (zs @ []))" "length zs = unat n"
    using arr by (simp_all add: sd_array_def)
  from free_slots [OF this(1) r] this(2) show ?thesis by simp
qed

lemma grub_free_live:
  assumes "lookup (blocks s) p = Some y"
  shows "grub_free p s = s\<lparr>blocks := store (blocks s) p None, freed := p # freed s\<rparr>"
proof -
  have "0 < p" using assms lookup_Some_range by blast
  then show ?thesis using assms by (simp add: grub_free_def)
qed

lemma keystore_grub_free: "pks_keystore (grub_free p s) = pks_keystore s"
  by (simp add: grub_free_def)

lemma tmp_free_releases:
  assumes K: "pks_keystore s = K"
    and db: "sd_array s (db K) (db_entries K) zs"
    and dbx: "dbx K = 0" "dbx_entries K = 0"
    and r: "releasable s zs"
  shows "\<exists>b. grub_pks_tmp_free s
               = s\<lparr>blocks := b,
                   freed := (if db K = 0 then [] else [db K]) @ rev (buffers zs) @ freed s,
                   pks_keystore := pks_keystore_zero\<rparr>
          \<and> length b = length (blocks s)
          \<and> (\<forall>c. lookup b c = (if c \<in> set (buffers zs) \<or> c = db K then None else lookup (blocks s) c))"
proof -
  from free_array [OF db r] obtain b where
    f: "foldl (free_entry_data (db K)) s [0 ..< unat (db_entries K)]
               = s\<lparr>blocks := b, freed := rev (buffers zs) @ freed s\<rparr>"
    and lb: "length b = length (blocks s)"
    and cb: "\<forall>c. lookup b c = (if c \<in> set (buffers zs) then None else lookup (blocks s) c)" by blast
  let ?s1 = "s\<lparr>blocks := b, freed := rev (buffers zs) @ freed s\<rparr>"
  have t: "grub_pks_tmp_free s = (grub_free (db K) ?s1)\<lparr>pks_keystore := pks_keystore_zero\<rparr>"
    using K f dbx by (simp add: grub_pks_tmp_free_def Let_def grub_free_null keystore_grub_free)
  show ?thesis
  proof (cases "db K = 0")
    case True
    then show ?thesis using t lb cb
      by (intro exI [of _ b]) (auto simp add: grub_free_null lookup_out)
  next
    case False
    then have live: "lookup (blocks s) (db K) = Some (Slots zs)" using db by (simp add: sd_array_def)
    have "db K \<notin> set (buffers zs)"
    proof
      assume "db K \<in> set (buffers zs)"
      then obtain bs where "lookup (blocks s) (db K) = Some (Buf bs)" using r by (auto simp add: releasable_def)
      then show False using live by simp
    qed
    then have lb1: "lookup (blocks ?s1) (db K) = Some (Slots zs)" using cb live by simp
    have rng: "0 < db K \<and> db K \<le> length b" using lb1 lookup_Some_range [of b "db K"] by simp
    have c': "\<forall>c. lookup (store b (db K) None) c
                 = (if c \<in> set (buffers zs) \<or> c = db K then None else lookup (blocks s) c)"
    proof
      fix c
      show "lookup (store b (db K) None) c
                 = (if c \<in> set (buffers zs) \<or> c = db K then None else lookup (blocks s) c)"
      proof (cases "c = db K")
        case True
        then show ?thesis using rng by (simp add: lookup_store_same)
      next
        case n: False
        then have "lookup (store b (db K) None) c = lookup b c" using rng by (simp add: lookup_store_other)
        then show ?thesis using cb n by simp
      qed
    qed
    show ?thesis
      apply (rule exI [of _ "store b (db K) None"])
      using t False c' lb apply (simp add: grub_free_live [OF lb1] length_store)
      done
  qed
qed

lemma buffers_failed: "buffers (es @ [unassigned\<lparr>data := Some 0\<rparr>]) = buffers es"
  by (simp add: buffers_snoc)

lemma appended_failed_round:
  assumes a: "appended s sd xs sk pk es vs"
  shows "appended s sd xs (failed_round sk pk (xs @ es)) (Suc (length (blocks sk)))
           (es @ [unassigned\<lparr>data := Some 0\<rparr>]) (vs @ [(None, None, None)])"
proof -
  let ?L = "length (blocks s)"
  let ?Lk = "length (blocks sk)"
  let ?s1 = "failed_round sk pk (xs @ es)"
  let ?f = "unassigned\<lparr>data := Some 0\<rparr>"
  from a have arr: "if pk = 0 then xs @ es = [] else lookup (blocks sk) pk = Some (Slots (xs @ es))"
    and m: "map (sd_view sk) es = vs"
    and d: "\<forall>y \<in> set es. data y \<noteq> None"
    and u: "distinct (buffers es)"
    and b: "\<forall>a \<in> set (buffers es). ?L < a \<and> (\<exists>bs. lookup (blocks sk) a = Some (Buf bs))"
    and k: "\<forall>c. ?L < c \<longrightarrow> lookup (blocks sk) c \<noteq> None \<longrightarrow> c = pk \<or> c \<in> set (buffers es)"
    and f: "\<forall>a \<le> ?L. a \<noteq> sd \<longrightarrow> lookup (blocks sk) a = lookup (blocks s) a"
    and o: "pk \<noteq> sd \<longrightarrow> lookup (blocks sk) sd = None"
    and sdL: "sd \<le> ?L"
    and l: "?L \<le> ?Lk"
    and p: "pk = sd \<or> ?L < pk"
    and pl: "plan sk = drop (2 * length es) (plan s)"
    and r: "fault sk = fault s" "statics sk = statics s"
    unfolding appended_def by blast+
  have pkr: "pk \<le> ?Lk"
    using arr lookup_Some_range [of "blocks sk" pk] by (cases "pk = 0") auto
  have bl: "blocks ?s1 = release pk (blocks sk) @ [Some (Slots (xs @ es @ [?f]))]"
    by (simp add: failed_round_def)
  have old: "lookup (blocks ?s1) c = (if c = pk then None else lookup (blocks sk) c)" if "c \<le> ?Lk" for c
  proof (cases "c = pk")
    case True
    show ?thesis
    proof (cases "pk = 0")
      case True
      then show ?thesis using \<open>c = pk\<close> by (simp add: lookup_out)
    next
      case False
      then show ?thesis using \<open>c = pk\<close> pkr
        by (simp add: bl lookup_append_old length_release lookup_release_same)
    qed
  next
    case False
    then show ?thesis using that
      by (simp add: bl lookup_append_old length_release lookup_release_other)
  qed
  have new: "lookup (blocks ?s1) (Suc ?Lk) = Some (Slots (xs @ es @ [?f]))"
    by (simp add: bl lookup_new1 length_release)
  have len: "length (blocks ?s1) = Suc ?Lk" by (simp add: bl length_release)
  have bold: "a \<le> ?Lk \<and> a \<noteq> pk \<and> 0 < a" if "a \<in> set (buffers es)" for a
  proof -
    from that b obtain bs where a: "lookup (blocks sk) a = Some (Buf bs)" by blast
    then have "0 < a \<and> a \<le> ?Lk" by (rule lookup_Some_range)
    moreover have "a \<noteq> pk" using arr a calculation by (cases "pk = 0") auto
    ultimately show ?thesis by simp
  qed
  have same: "lookup (blocks ?s1) a = lookup (blocks sk) a" if "a \<in> set (buffers es)" for a
    using bold [OF that] old [of a] by simp
  have keep: "sd_view ?s1 y = sd_view sk y" if y: "y \<in> set es" for y
  proof -
    from y d obtain a where a: "data y = Some a" by auto
    show ?thesis
    proof (cases "a = 0")
      case True
      then show ?thesis using a by (simp add: sd_view_def lookup_out)
    next
      case False
      then have "a \<in> set (buffers es)" using a y by (force simp add: buffers_def)
      from same [OF this] show ?thesis using a by (simp add: sd_view_def)
    qed
  qed
  have vf: "sd_view ?s1 ?f = (None, None, None)"
    by (simp add: sd_view_def unassigned_def lookup_out)
  have c1: "if Suc ?Lk = 0 then xs @ es @ [?f] = []
            else lookup (blocks ?s1) (Suc ?Lk) = Some (Slots (xs @ es @ [?f]))"
    using new by simp
  have c2: "map (sd_view ?s1) (es @ [?f]) = vs @ [(None, None, None)]"
    using keep m vf by auto
  have c3: "\<forall>y \<in> set (es @ [?f]). data y \<noteq> None" using d by auto
  have c4: "distinct (buffers (es @ [?f]))" using u by (simp add: buffers_failed)
  have c5: "\<forall>a \<in> set (buffers (es @ [?f])). ?L < a \<and> (\<exists>bs. lookup (blocks ?s1) a = Some (Buf bs))"
    using b same by (simp add: buffers_failed)
  have c6: "\<forall>c. ?L < c \<longrightarrow> lookup (blocks ?s1) c \<noteq> None
              \<longrightarrow> c = Suc ?Lk \<or> c \<in> set (buffers (es @ [?f]))"
  proof (intro allI impI)
    fix c assume c: "?L < c" "lookup (blocks ?s1) c \<noteq> None"
    then obtain y where "lookup (blocks ?s1) c = Some y" by auto
    then have cle: "c \<le> Suc ?Lk" using lookup_Some_range [of "blocks ?s1" c y] len by simp
    show "c = Suc ?Lk \<or> c \<in> set (buffers (es @ [?f]))"
    proof (cases "c = Suc ?Lk")
      case True
      then show ?thesis by simp
    next
      case False
      then have "c \<le> ?Lk" using cle by simp
      then have "c \<noteq> pk \<and> lookup (blocks sk) c \<noteq> None" using old [of c] c(2) by (cases "c = pk") auto
      then show ?thesis using k c(1) by (auto simp add: buffers_failed)
    qed
  qed
  have c7: "\<forall>a \<le> ?L. a \<noteq> sd \<longrightarrow> lookup (blocks ?s1) a = lookup (blocks s) a"
  proof (intro allI impI)
    fix a assume a: "a \<le> ?L" "a \<noteq> sd"
    then have "a \<noteq> pk" using p by auto
    then have "lookup (blocks ?s1) a = lookup (blocks sk) a" using old [of a] a(1) l by simp
    then show "lookup (blocks ?s1) a = lookup (blocks s) a" using f a by simp
  qed
  have c8: "Suc ?Lk \<noteq> sd \<longrightarrow> lookup (blocks ?s1) sd = None"
    using old [of sd] sdL l o by (cases "sd = pk") auto
  have c9: "?L \<le> length (blocks ?s1)" using len l by simp
  have c10: "Suc ?Lk = sd \<or> ?L < Suc ?Lk" using l by simp
  have c11: "plan ?s1 = drop (2 * length (es @ [?f])) (plan s)"
    using pl by (simp add: failed_round_def drop_Suc tl_drop add.commute)
  have c12: "fault ?s1 = fault s" "statics ?s1 = statics s"
    using r by (simp_all add: failed_round_def statics_def)
  show ?thesis
    unfolding appended_def
    using c1 c2 c3 c4 c5 c6 c7 c8 sdL c9 c10 c11 c12 by (intro conjI)
qed

subsection \<open>A failed payload allocation, from any array\<close>


lemma appended_releasable:
  assumes a: "appended s sd xs s' p' ys vs"
    and arr: "sd_array s sd n xs"
    and r: "releasable s xs"
  shows "releasable s' (xs @ ys)"
proof -
  let ?L = "length (blocks s)"
  from a have d: "\<forall>y \<in> set ys. data y \<noteq> None"
    and u: "distinct (buffers ys)"
    and b: "\<forall>a \<in> set (buffers ys). ?L < a \<and> (\<exists>bs. lookup (blocks s') a = Some (Buf bs))"
    and f: "\<forall>a \<le> ?L. a \<noteq> sd \<longrightarrow> lookup (blocks s') a = lookup (blocks s) a"
    unfolding appended_def by blast+
  have old: "a \<le> ?L \<and> a \<noteq> sd \<and> (\<exists>bs. lookup (blocks s) a = Some (Buf bs))" if "a \<in> set (buffers xs)" for a
  proof -
    from that r obtain bs where l: "lookup (blocks s) a = Some (Buf bs)" by (auto simp add: releasable_def)
    then have "0 < a \<and> a \<le> ?L" by (rule lookup_Some_range)
    moreover have "a \<noteq> sd" using arr l calculation by (cases "sd = 0") (auto simp add: sd_array_def)
    ultimately show ?thesis using l by blast
  qed
  have "set (buffers xs) \<inter> set (buffers ys) = {}"
  proof (rule ccontr)
    assume "set (buffers xs) \<inter> set (buffers ys) \<noteq> {}"
    then obtain a where "a \<in> set (buffers xs)" "a \<in> set (buffers ys)" by auto
    then show False using old [of a] b by auto
  qed
  then have c1: "distinct (buffers (xs @ ys))" using r u by (simp add: releasable_def buffers_append)
  have c2: "\<forall>z \<in> set (xs @ ys). data z \<noteq> None" using r d by (auto simp add: releasable_def)
  have c3: "\<forall>a \<in> set (buffers (xs @ ys)). \<exists>bs. lookup (blocks s') a = Some (Buf bs)"
  proof
    fix a assume "a \<in> set (buffers (xs @ ys))"
    then consider "a \<in> set (buffers xs)" | "a \<in> set (buffers ys)" by (auto simp add: buffers_append)
    then show "\<exists>bs. lookup (blocks s') a = Some (Buf bs)"
    proof cases
      case 1
      from old [OF 1] f show ?thesis by auto
    next
      case 2
      then show ?thesis using b by blast
    qed
  qed
  show ?thesis unfolding releasable_def using c1 c2 c3 by (intro conjI)
qed

lemma esl_to_esd'_fails:
  assumes arr: "sd_array s sd n xs"
    and sz: "16 \<le> unat signature_size"
    and N: "unat esl_sz = N * unat signature_size"
    and inb: "N * unat signature_size \<le> length esl_data"
    and lt: "length esl_data < 2 ^ 32"
    and fits: "(unat n + N) * 24 < 2 ^ 32"
    and kN: "k < N"
    and al: "allocs_succeed (2 * k + 1) s"
    and no: "2 * k + 1 < length (plan s)" "\<not> plan s ! (2 * k + 1)"
  shows "\<exists>s1. esl_to_esd' esl_data esl_sz signature_size guidp sd n s =
              Some (GRUB_ERR_OUT_OF_MEMORY, length (blocks s) + 2 * k + 1, n + of_nat k + 1, s1)
          \<and> appended s sd xs s1 (length (blocks s) + 2 * k + 1)
               (new_entries (length (blocks s)) guidp (signature_size - 16) k
                  @ [unassigned\<lparr>data := Some 0\<rparr>])
               (map (\<lambda>i. (Some guidp, Some (signature_size - 16),
                           Some (payload esl_data 0 (unat signature_size) i))) [0 ..< k]
                  @ [(None, None, None)])
          \<and> grub_errno s1 = GRUB_ERR_OUT_OF_MEMORY"
proof -
  let ?L = "length (blocks s)"
  let ?pk = "if k = 0 then sd else ?L + 2 * k - 1"
  let ?es = "new_entries ?L guidp (signature_size - 16) k"
  from esl_to_esd'_payload_fails [OF arr sz N inb lt fits kN al no, of guidp]
  obtain sk where g: "grown s sd xs guidp (signature_size - 16) (payload esl_data 0 (unat signature_size)) k sk"
    and e: "esl_to_esd' esl_data esl_sz signature_size guidp sd n s =
              Some (GRUB_ERR_OUT_OF_MEMORY, ?L + 2 * k + 1, n + of_nat k + 1,
                    failed_round sk ?pk (xs @ ?es))" by blast
  have lenk: "length (blocks sk) = ?L + 2 * k" using g by (simp add: grown_def)
  from appended_failed_round [OF grown_appended [OF arr g]]
  have a: "appended s sd xs (failed_round sk ?pk (xs @ ?es)) (?L + 2 * k + 1)
             (?es @ [unassigned\<lparr>data := Some 0\<rparr>])
             (map (\<lambda>i. (Some guidp, Some (signature_size - 16),
                           Some (payload esl_data 0 (unat signature_size) i))) [0 ..< k]
                  @ [(None, None, None)])"
    by (simp add: lenk)
  have "grub_errno (failed_round sk ?pk (xs @ ?es)) = GRUB_ERR_OUT_OF_MEMORY"
    by (simp add: failed_round_def)
  then show ?thesis using e a by blast
qed

lemma free_array_fault:
  assumes arr: "sd_array s p n zs"
    and r: "releasable s zs"
  shows "fault (foldl (free_entry_data p) s [0 ..< unat n]) = fault s"
    and "freed (foldl (free_entry_data p) s [0 ..< unat n]) = rev (buffers zs) @ freed s"
    and "\<forall>a \<in> set (buffers zs). lookup (blocks (foldl (free_entry_data p) s [0 ..< unat n])) a = None"
proof -
  from free_array [OF arr r] obtain b where
    f: "foldl (free_entry_data p) s [0 ..< unat n]
               = s\<lparr>blocks := b, freed := rev (buffers zs) @ freed s\<rparr>"
    and cb: "\<forall>c. lookup b c = (if c \<in> set (buffers zs) then None else lookup (blocks s) c)" by blast
  show "fault (foldl (free_entry_data p) s [0 ..< unat n]) = fault s" using f by simp
  show "freed (foldl (free_entry_data p) s [0 ..< unat n]) = rev (buffers zs) @ freed s" using f by simp
  show "\<forall>a \<in> set (buffers zs). lookup (blocks (foldl (free_entry_data p) s [0 ..< unat n])) a = None"
    using f cb by simp
qed

lemma tmp_free_fault:
  assumes K: "pks_keystore s = K"
    and db: "sd_array s (db K) (db_entries K) zs"
    and dbx: "dbx K = 0" "dbx_entries K = 0"
    and r: "releasable s zs"
  shows "fault (grub_pks_tmp_free s) = fault s"
proof -
  from tmp_free_releases [OF K db dbx r] obtain b where
    "grub_pks_tmp_free s
               = s\<lparr>blocks := b,
                   freed := (if db K = 0 then [] else [db K]) @ rev (buffers zs) @ freed s,
                   pks_keystore := pks_keystore_zero\<rparr>" by blast
  then show ?thesis by simp
qed

text \<open>
  C10. When the allocation of an entry's payload fails, whatever array of entries
  the parser started from (the first list or a later one, of either variable), the
  count returned includes the slot the array was just grown by, and that slot holds
  the null pointer in \<open>data\<close>: the result of the failed allocation was stored before
  the return. Every slot added by the call has an assigned \<open>data\<close> pointer, and the
  round of the loop of \<^verbatim>\<open>grub_pks_tmp_free\<close> for the failed slot passes the null
  pointer to \<^verbatim>\<open>grub_free\<close> and changes nothing. If the entries that were there
  before can be released (assigned pointers, those not null to live buffers, no two
  to the same), so can the array returned: the loop of \<^verbatim>\<open>grub_pks_tmp_free\<close> over
  the returned count frees the buffer of every complete entry once, nothing for the
  failed slot, and raises no fault; and all of \<^verbatim>\<open>grub_pks_tmp_free\<close>, on a
  keystore with this array as its allow-list and no deny-list, raises no fault.
\<close>

theorem failed_slot_data_null:
  assumes arr: "sd_array s sd n xs"
    and sz: "16 < unat signature_size"
    and N: "unat esl_sz = N * unat signature_size"
    and inb: "N * unat signature_size \<le> length esl_data"
    and lt: "length esl_data < 2 ^ 32"
    and fits: "(unat n + N) * 24 < 2 ^ 32"
    and kN: "k < N"
    and al: "allocs_succeed (2 * k + 1) s"
    and no: "2 * k + 1 < length (plan s)" "\<not> plan s ! (2 * k + 1)"
  shows "\<exists>p s1 zs. esl_to_esd' esl_data esl_sz signature_size guidp sd n s =
              Some (GRUB_ERR_OUT_OF_MEMORY, p, n + of_nat k + 1, s1)
          \<and> sd_array s1 p (n + of_nat k + 1) zs
          \<and> length zs = unat n + k + 1 \<and> take (unat n) zs = xs
          \<and> data (zs ! (unat n + k)) = Some 0
          \<and> (\<forall>i. unat n \<le> i \<and> i \<le> unat n + k \<longrightarrow> data (zs ! i) \<noteq> None)
          \<and> (\<forall>t. lookup (blocks t) p = Some (Slots zs) \<longrightarrow> free_entry_data p t (unat n + k) = t)
          \<and> fault s1 = fault s
          \<and> (releasable s xs \<longrightarrow>
                releasable s1 zs
                \<and> length (buffers zs) = length (buffers xs) + k
                \<and> fault (foldl (free_entry_data p) s1 [0 ..< unat (n + of_nat k + 1)]) = fault s
                \<and> freed (foldl (free_entry_data p) s1 [0 ..< unat (n + of_nat k + 1)])
                     = rev (buffers zs) @ freed s1
                \<and> (\<forall>a \<in> set (buffers zs).
                      lookup (blocks (foldl (free_entry_data p) s1 [0 ..< unat (n + of_nat k + 1)])) a = None))
          \<and> (releasable s xs \<and> dbx (pks_keystore s) = 0 \<and> dbx_entries (pks_keystore s) = 0 \<longrightarrow>
                fault (grub_pks_tmp_free
                         (s1\<lparr>pks_keystore := (pks_keystore s1)\<lparr>db := p, db_entries := n + of_nat k + 1\<rparr>\<rparr>))
                  = fault s)"
proof -
  have sz': "16 \<le> unat signature_size" using sz by simp
  let ?L = "length (blocks s)"
  let ?p = "?L + 2 * k + 1"
  let ?es = "new_entries ?L guidp (signature_size - 16) k"
  let ?f = "unassigned\<lparr>data := Some 0\<rparr>"
  let ?ys = "?es @ [?f]"
  let ?zs = "xs @ ?ys"
  let ?c = "n + of_nat k + 1"
  from esl_to_esd'_fails [OF arr sz' N inb lt fits kN al no, of guidp]
  obtain s1 vs where e: "esl_to_esd' esl_data esl_sz signature_size guidp sd n s =
              Some (GRUB_ERR_OUT_OF_MEMORY, ?p, ?c, s1)"
    and a: "appended s sd xs s1 ?p ?ys vs" by blast
  have lx: "length xs = unat n" using arr by (simp add: sd_array_def)
  have ly: "length ?ys = k + 1" by (simp add: length_new_entries)
  have small: "unat n + length ?ys < 2 ^ 32" using fits kN ly by simp
  have cnt: "?c = n + of_nat (length ?ys)" by (simp add: length_new_entries)
  have arr1: "sd_array s1 ?p ?c ?zs"
    using appended_array [OF a arr small] by (simp only: cnt)
  have uc: "unat ?c = unat n + k + 1" using arr1 lx ly by (simp add: sd_array_def)
  have lz: "length ?zs = unat n + k + 1" using lx ly by simp
  have tk: "take (unat n) ?zs = xs" using lx by simp
  have dk: "data (?zs ! (unat n + k)) = Some 0"
    using lx by (simp add: nth_append length_new_entries)
  have all: "\<forall>i. unat n \<le> i \<and> i \<le> unat n + k \<longrightarrow> data (?zs ! i) \<noteq> None"
  proof (intro allI impI)
    fix i assume i: "unat n \<le> i \<and> i \<le> unat n + k"
    have e1: "?zs ! i = ?ys ! (i - unat n)" using i lx by (simp add: nth_append)
    have "i - unat n < length ?ys" using i ly by arith
    then have e2: "?ys ! (i - unat n) \<in> set ?ys" by (rule nth_mem)
    have e3: "\<forall>y \<in> set ?ys. data y \<noteq> None" using a unfolding appended_def by blast
    from e3 e2 have e4: "data (?ys ! (i - unat n)) \<noteq> None" by blast
    show "data (?zs ! i) \<noteq> None" by (subst e1) (rule e4)
  qed
  have harmless: "\<forall>t. lookup (blocks t) ?p = Some (Slots ?zs) \<longrightarrow> free_entry_data ?p t (unat n + k) = t"
    using dk lz by (simp add: free_entry_data_def grub_free_null)
  have fl: "fault s1 = fault s" using a unfolding appended_def by blast
  have rel: "releasable s1 ?zs" if "releasable s xs"
    using appended_releasable [OF a arr that] .
  have nb: "length (buffers ?zs) = length (buffers xs) + k"
    by (simp add: buffers_append buffers_new_entries) (simp add: buffers_def)
  have loop: "fault (foldl (free_entry_data ?p) s1 [0 ..< unat ?c]) = fault s
              \<and> freed (foldl (free_entry_data ?p) s1 [0 ..< unat ?c]) = rev (buffers ?zs) @ freed s1
              \<and> (\<forall>a \<in> set (buffers ?zs).
                    lookup (blocks (foldl (free_entry_data ?p) s1 [0 ..< unat ?c])) a = None)"
    if "releasable s xs"
    using free_array_fault [OF arr1 rel [OF that]] fl by simp
  have whole: "fault (grub_pks_tmp_free (s1\<lparr>pks_keystore := (pks_keystore s1)\<lparr>db := ?p, db_entries := ?c\<rparr>\<rparr>))
                  = fault s"
    if r: "releasable s xs" and z: "dbx (pks_keystore s) = 0" "dbx_entries (pks_keystore s) = 0"
  proof -
    let ?K = "(pks_keystore s1)\<lparr>db := ?p, db_entries := ?c\<rparr>"
    let ?t = "s1\<lparr>pks_keystore := ?K\<rparr>"
    have ks: "pks_keystore s1 = pks_keystore s" using a unfolding appended_def statics_def by blast
    have K: "pks_keystore ?t = ?K" by simp
    have db: "sd_array ?t (db ?K) (db_entries ?K) ?zs" using arr1 by (simp add: sd_array_def)
    have dbx: "dbx ?K = 0" "dbx_entries ?K = 0" using z ks by simp_all
    have rt: "releasable ?t ?zs" using rel [OF r] by (simp add: releasable_def)
    from tmp_free_fault [OF K db dbx rt] show ?thesis using fl by simp
  qed
  show ?thesis
    apply (rule exI [of _ ?p])
    apply (rule exI [of _ s1])
    apply (rule exI [of _ ?zs])
    apply (intro conjI impI)
    using e arr1 lz tk dk all harmless fl rel nb loop whole apply blast+
    done
qed

theorem failed_slot_data_null_witness:
  "sd_array (loaded_one [True, True, True, False]) 1 1 [new_entry (replicate 16 3) 1 2]
   \<and> releasable (loaded_one [True, True, True, False]) [new_entry (replicate 16 3) 1 2]
   \<and> (\<exists>p s1 zs. esl_to_esd' (replicate 34 0) 34 17 (replicate 16 7) 1 1
                    (loaded_one [True, True, True, False]) =
              Some (GRUB_ERR_OUT_OF_MEMORY, p, 3, s1)
          \<and> sd_array s1 p 3 zs
          \<and> take 1 zs = [new_entry (replicate 16 3) 1 2]
          \<and> data (zs ! 2) = Some 0 \<and> data (zs ! 1) \<noteq> None
          \<and> length (buffers zs) = 2
          \<and> \<not> fault (foldl (free_entry_data p) s1 [0 ..< 3])
          \<and> \<not> fault (grub_pks_tmp_free
                      (s1\<lparr>pks_keystore := (pks_keystore s1)\<lparr>db := p, db_entries := 3\<rparr>\<rparr>)))"
proof -
  let ?s = "loaded_one [True, True, True, False]"
  let ?xs = "[new_entry (replicate 16 3) 1 2]"
  have b: "buffers ?xs = [2]" by (simp add: buffers_def new_entry_def)
  have h: "sd_array ?s 1 1 ?xs"
    "(16 :: nat) < unat (17 :: size_t)" "unat (34 :: size_t) = 2 * unat (17 :: size_t)"
    "2 * unat (17 :: size_t) \<le> length (replicate 34 (0 :: u8))"
    "length (replicate 34 (0 :: u8)) < 2 ^ 32" "(unat (1 :: u32) + 2) * 24 < 2 ^ 32" "(1 :: nat) < 2"
    "allocs_succeed (2 * 1 + 1) ?s"
    "2 * 1 + 1 < length (plan ?s)"
    "\<not> plan ?s ! (2 * 1 + 1)"
    by (simp_all add: allocs_succeed_def boot_def loaded_one_def sd_array_def lookup_def)
  have r: "releasable ?s ?xs"
    by (simp add: releasable_def b) (simp add: loaded_one_def lookup_def new_entry_def)
  have z: "dbx (pks_keystore ?s) = 0" "dbx_entries (pks_keystore ?s) = 0" "\<not> fault ?s"
    by (simp_all add: loaded_one_def zero_fields boot_def)
  from failed_slot_data_null [OF h, of "replicate 16 7"]
  obtain p s1 zs where c:
    "esl_to_esd' (replicate 34 0) 34 17 (replicate 16 7) 1 1 ?s =
              Some (GRUB_ERR_OUT_OF_MEMORY, p, 1 + of_nat 1 + 1, s1)"
    "sd_array s1 p (1 + of_nat 1 + 1) zs"
    "take (unat (1 :: u32)) zs = ?xs"
    "data (zs ! (unat (1 :: u32) + 1)) = Some 0"
    "\<forall>i. unat (1 :: u32) \<le> i \<and> i \<le> unat (1 :: u32) + 1 \<longrightarrow> data (zs ! i) \<noteq> None"
    "releasable ?s ?xs \<longrightarrow>
                releasable s1 zs
                \<and> length (buffers zs) = length (buffers ?xs) + 1
                \<and> fault (foldl (free_entry_data p) s1 [0 ..< unat (1 + of_nat 1 + 1 :: u32)]) = fault ?s
                \<and> freed (foldl (free_entry_data p) s1 [0 ..< unat (1 + of_nat 1 + 1 :: u32)])
                     = rev (buffers zs) @ freed s1
                \<and> (\<forall>a \<in> set (buffers zs).
                      lookup (blocks (foldl (free_entry_data p) s1 [0 ..< unat (1 + of_nat 1 + 1 :: u32)])) a = None)"
    "releasable ?s ?xs \<and> dbx (pks_keystore ?s) = 0 \<and> dbx_entries (pks_keystore ?s) = 0 \<longrightarrow>
                fault (grub_pks_tmp_free
                         (s1\<lparr>pks_keystore := (pks_keystore s1)\<lparr>db := p, db_entries := 1 + of_nat 1 + 1\<rparr>\<rparr>))
                  = fault ?s"
    by blast
  have d1: "data (zs ! 1) \<noteq> None" using c(5) by simp
  have n2: "unat (1 :: u32) + 1 = 2" by simp
  have d2: "data (zs ! 2) = Some 0" using c(4) unfolding n2 .
  have e: "(1 + of_nat 1 + 1 :: u32) = 3" by simp
  show ?thesis
    apply (intro conjI)
      apply (rule h(1))
     apply (rule r)
    apply (rule exI [of _ p])
    apply (rule exI [of _ s1])
    apply (rule exI [of _ zs])
    using c r z d1 d2 b apply (simp add: e)
    done
qed

subsection \<open>A failed load of the allow-list\<close>




lemma read_sbvar_parse:
  assumes al: "alloc_succeeds s"
    and fw: "grub_ieee1275_pks_read_sbvar fw fl ty (pks_max_object_size s) = (rc, bytes)"
    and rc: "0 \<le> rc"
    and room: "length bytes \<le> unat (pks_max_object_size s)"
    and ne: "bytes \<noteq> []"
    and parse: "pks_sd_from_esl (Some bytes) (of_nat (length bytes)) sd n
                  (s\<lparr>plan := tl (plan s), blocks := blocks s @ [Some (Buf bytes)]\<rparr>)
                = Some (e, p', n', s3)"
    and app: "appended (s\<lparr>plan := tl (plan s), blocks := blocks s @ [Some (Buf bytes)]\<rparr>)
                sd xs s3 p' ys vs"
    and sdL: "sd \<le> length (blocks s)"
  shows "\<exists>s4. read_sbvar_from_pks fw fl ty sd n s = Some (e, p', n', s4)
          \<and> appended (s\<lparr>plan := tl (plan s)\<rparr>) sd xs s4 p' ys vs
          \<and> grub_errno s4 = grub_errno s3"
proof -
  let ?L = "length (blocks s)"
  let ?s2 = "s\<lparr>plan := tl (plan s), blocks := blocks s @ [Some (Buf bytes)]\<rparr>"
  let ?s4 = "s3\<lparr>blocks := store (blocks s3) (Suc ?L) None, freed := Suc ?L # freed s3\<rparr>"
  have m: "grub_malloc (pks_max_object_size s) s
           = (Suc ?L, s\<lparr>blocks := blocks s @ [Some (Raw (unat (pks_max_object_size s)))], plan := tl (plan s)\<rparr>)"
    using al by (simp add: grub_malloc_def)
  have wr: "written (pks_max_object_size s) bytes = bytes" using room by (simp add: written_def)
  have ltB: "length bytes < 2 ^ 32"
    using room unsigned_less [of "pks_max_object_size s", where 'a = nat] by simp
  have pos: "0 < length bytes" using ne by simp
  have wpos: "(0 :: size_t) < of_nat (length bytes)"
    using pos ltB by (simp only: word_less_nat_alt unat_of_nat) simp
  from app have arr3: "if p' = 0 then xs @ ys = [] else lookup (blocks s3) p' = Some (Slots (xs @ ys))"
    and m3: "map (sd_view s3) ys = vs"
    and d3: "\<forall>y \<in> set ys. data y \<noteq> None"
    and u3: "distinct (buffers ys)"
    and b3: "\<forall>a \<in> set (buffers ys). Suc ?L < a \<and> (\<exists>bs. lookup (blocks s3) a = Some (Buf bs))"
    and k3: "\<forall>c. Suc ?L < c \<longrightarrow> lookup (blocks s3) c \<noteq> None \<longrightarrow> c = p' \<or> c \<in> set (buffers ys)"
    and f3: "\<forall>a \<le> Suc ?L. a \<noteq> sd \<longrightarrow> lookup (blocks s3) a = lookup (blocks ?s2) a"
    and o3: "p' \<noteq> sd \<longrightarrow> lookup (blocks s3) sd = None"
    and l3: "Suc ?L \<le> length (blocks s3)"
    and p3: "p' = sd \<or> Suc ?L < p'"
    and pl3: "plan s3 = drop (2 * length ys) (tl (plan s))"
    and r3: "fault s3 = fault s" "statics s3 = statics s"
    unfolding appended_def by (simp_all add: statics_def)
  have "lookup (blocks s3) (Suc ?L) = lookup (blocks ?s2) (Suc ?L)" using f3 sdL by auto
  then have buf: "lookup (blocks s3) (Suc ?L) = Some (Buf bytes)"
    by (simp add: lookup_new1 [of ?L "blocks s" _ "[]"])
  have fr: "grub_free (Suc ?L) s3 = ?s4" using buf by (simp add: grub_free_def)
  have res: "read_sbvar_from_pks fw fl ty sd n s = Some (e, p', n', ?s4)"
    using rc wpos parse fr
    by (simp add: read_sbvar_from_pks_def m fw wr Let_def store_new1 [of ?L "blocks s" _ "[]"]
          IEEE1275_CELL_NOT_FOUND_def)
  have lk: "lookup (blocks ?s4) c = (if c = Suc ?L then None else lookup (blocks s3) c)" for c
    using l3 by (simp add: lookup_store_same lookup_store_other)
  have pne: "p' \<noteq> Suc ?L" using p3 sdL by auto
  have keep: "sd_view ?s4 y = sd_view s3 y" if y: "y \<in> set ys" for y
  proof -
    from y d3 obtain a where a: "data y = Some a" by auto
    show ?thesis
    proof (cases "a = 0")
      case True
      then show ?thesis using a by (simp add: sd_view_def lookup_out)
    next
      case False
      then have "a \<in> set (buffers ys)" using a y by (force simp add: buffers_def)
      then have "a \<noteq> Suc ?L" using b3 by auto
      then show ?thesis using a lk by (simp add: sd_view_def)
    qed
  qed
  have c1: "if p' = 0 then xs @ ys = [] else lookup (blocks ?s4) p' = Some (Slots (xs @ ys))"
    using arr3 pne lk by (cases "p' = 0") simp_all
  have c2: "map (sd_view ?s4) ys = vs" using keep m3 by auto
  have c5: "\<forall>a \<in> set (buffers ys). ?L < a \<and> (\<exists>bs. lookup (blocks ?s4) a = Some (Buf bs))"
    using b3 lk by auto
  have c6: "\<forall>c. ?L < c \<longrightarrow> lookup (blocks ?s4) c \<noteq> None \<longrightarrow> c = p' \<or> c \<in> set (buffers ys)"
  proof (intro allI impI)
    fix c assume c: "?L < c" "lookup (blocks ?s4) c \<noteq> None"
    then have "c \<noteq> Suc ?L \<and> lookup (blocks s3) c \<noteq> None" using lk [of c] by (cases "c = Suc ?L") auto
    then show "c = p' \<or> c \<in> set (buffers ys)" using k3 c(1) by auto
  qed
  have c7: "\<forall>a \<le> ?L. a \<noteq> sd \<longrightarrow> lookup (blocks ?s4) a = lookup (blocks s) a"
  proof (intro allI impI)
    fix a assume a: "a \<le> ?L" "a \<noteq> sd"
    then have "lookup (blocks ?s4) a = lookup (blocks ?s2) a" using lk [of a] f3 by simp
    then show "lookup (blocks ?s4) a = lookup (blocks s) a" using a(1) by (simp add: lookup_append_old)
  qed
  have c8: "p' \<noteq> sd \<longrightarrow> lookup (blocks ?s4) sd = None" using o3 lk [of sd] by auto
  have c9: "?L \<le> length (blocks ?s4)" using l3 by (simp add: length_store)
  have c10: "p' = sd \<or> ?L < p'" using p3 by auto
  have c11: "plan ?s4 = drop (2 * length ys) (tl (plan s))" using pl3 by simp
  have c12: "fault ?s4 = fault s" "statics ?s4 = statics s" using r3 by (simp_all add: statics_def)
  have "appended (s\<lparr>plan := tl (plan s)\<rparr>) sd xs ?s4 p' ys vs"
    unfolding appended_def
    using c1 c2 d3 u3 c5 c6 c7 c8 sdL c9 c10 c11 c12 by (simp add: statics_def)
  then show ?thesis using res by (intro exI [of _ ?s4]) simp
qed

lemma allocs_succeed_Suc:
  assumes "allocs_succeed (Suc m) s"
  shows "alloc_succeeds s" and "allocs_succeed m (s\<lparr>plan := tl (plan s)\<rparr>)"
  using assms by (cases "plan s"; simp add: allocs_succeed_def alloc_succeeds_def)+

lemma keystore_read_sbversion:
  assumes "read_sbversion_from_pks fw s = (e, d, s')"
  shows "pks_keystore s' = pks_keystore s"
  using assms
  by (auto simp add: read_sbversion_from_pks_def grub_malloc_def grub_error_def Let_def
        split: prod.splits if_splits)

lemma keystore_is_pks_present: "pks_keystore (snd (is_pks_present fw s)) = pks_keystore s"
  by (auto simp add: is_pks_present_def Let_def grub_error_def keystore_grub_free
        split: prod.splits dest: keystore_read_sbversion)

lemma releasable_Nil: "releasable s []"
  by (simp add: releasable_def buffers_Nil)





lemma sd_view_blocks: "blocks s' = blocks s \<Longrightarrow> sd_view s' = sd_view s"
  by (rule ext) (simp add: sd_view_def split: option.splits)











subsection \<open>A failed growth of the array\<close>





subsection \<open>An absent allow-list\<close>

lemma init_absent_unfold:
  assumes pres: "is_pks_present fw s = (True, s1)"
    and dbr: "read_sbvar_from_pks fw 0 PKS_SBVAR_DB (db (pks_keystore s1)) (db_entries (pks_keystore s1)) s1
              = Some (rc, p, n, s2)"
    and absent: "rc = GRUB_ERR_FILE_NOT_FOUND \<or> rc = GRUB_ERR_BAD_NUMBER"
    and dbxr: "read_sbvar_from_pks fw 0 PKS_SBVAR_DBX (dbx (pks_keystore s1)) (dbx_entries (pks_keystore s1))
                 (s2\<lparr>pks_keystore := (pks_keystore s1)\<lparr>db := p, db_entries := n, use_static_keys := True\<rparr>\<rparr>)
               = Some (rc2, p2, n2, s5)"
    and loaded: "rc2 = GRUB_ERR_NONE \<or> rc2 = GRUB_ERR_FILE_NOT_FOUND \<or> rc2 = GRUB_ERR_BAD_NUMBER"
  shows "grub_pks_keystore_init fw s =
           Some (s5\<lparr>pks_keystore := (pks_keystore s1)\<lparr>db := p, db_entries := n, use_static_keys := True,
                                                      dbx := p2, dbx_entries := n2\<rparr>,
                    pks_use_keystore := True\<rparr>)"
  using absent loaded dbxr
  by (auto simp add: init_unfold [OF pres dbr] Let_def)

lemma read_sbvar_absent:
  assumes al: "alloc_succeeds s"
    and fw: "grub_ieee1275_pks_read_sbvar fw fl ty (pks_max_object_size s) = (rc, bytes)"
    and ab: "rc = IEEE1275_CELL_NOT_FOUND \<or> (0 \<le> rc \<and> written (pks_max_object_size s) bytes = [])"
  shows "\<exists>e s'. read_sbvar_from_pks fw fl ty sd n s = Some (e, sd, n, s')
           \<and> (e = GRUB_ERR_FILE_NOT_FOUND \<or> e = GRUB_ERR_BAD_NUMBER)
           \<and> blocks s' = blocks s @ [None] \<and> plan s' = tl (plan s)
           \<and> fault s' = fault s \<and> statics s' = statics s"
  using ab
proof
  assume "rc = IEEE1275_CELL_NOT_FOUND"
  then show ?thesis
    using read_sbvar_not_found [OF al, of fw fl ty bytes sd n] fw by (simp add: statics_def)
next
  assume "0 \<le> rc \<and> written (pks_max_object_size s) bytes = []"
  then show ?thesis
    using read_sbvar_empty [OF al fw, of sd n] by (simp add: statics_def)
qed

lemma read_sbvar_loaded:
  assumes al: "allocs_succeed (1 + 2 * sum_list (map esl_count Ls)) s"
    and fw: "grub_ieee1275_pks_read_sbvar fw fl ty (pks_max_object_size s) = (rc, concat Ls)"
    and rc: "0 \<le> rc"
    and room: "length (concat Ls) \<le> unat (pks_max_object_size s)"
    and ne: "Ls \<noteq> []"
    and ex: "\<forall>L \<in> set Ls. esl_exact L"
    and fits: "sum_list (map esl_count Ls) * 24 < 2 ^ 32"
  shows "\<exists>p' s' ys. read_sbvar_from_pks fw fl ty 0 0 s
                     = Some (GRUB_ERR_NONE, p', of_nat (sum_list (map esl_count Ls)), s')
          \<and> sd_array s' p' (of_nat (sum_list (map esl_count Ls))) ys
          \<and> map (sd_view s') ys = concat (map (\<lambda>L. esl_entries L (esl_count L)) Ls)
          \<and> releasable s' ys
          \<and> fault s' = fault s \<and> statics s' = statics s"
proof -
  let ?T = "sum_list (map esl_count Ls)"
  let ?B = "concat Ls"
  let ?s2 = "s\<lparr>plan := tl (plan s), blocks := blocks s @ [Some (Buf ?B)]\<rparr>"
  have al': "allocs_succeed (Suc (2 * ?T)) s" using al by simp
  note a0 = allocs_succeed_Suc [OF al']
  have al2: "allocs_succeed (2 * ?T) ?s2" using a0(2) by (simp add: allocs_succeed_def)
  have ltB: "length ?B < 2 ^ 32"
    using room unsigned_less [of "pks_max_object_size s", where 'a = nat] by simp
  obtain M Ms where Ls: "Ls = M # Ms" using ne by (cases Ls) auto
  then have "M \<noteq> []" using ex exact_nonempty by simp
  then have neB: "?B \<noteq> []" using Ls by simp
  have arr: "sd_array ?s2 0 0 []" by (simp add: sd_array_def)
  have fits2: "(unat (0 :: u32) + ?T) * 24 < 2 ^ 32" using fits by simp
  from pks_loop_ok [OF ne ex ltB arr fits2 al2]
  obtain p' s3 ys where r: "pks_sd_from_esl_loop (Some ?B) (of_nat (length ?B)) (of_nat (length ?B)) 0 0 ?s2
                     = Some (GRUB_ERR_NONE, p', 0 + of_nat ?T, s3)"
    and l: "length ys = ?T"
    and a: "appended ?s2 0 [] s3 p' ys (concat (map (\<lambda>L. esl_entries L (esl_count L)) Ls))"
    by blast
  have parse: "pks_sd_from_esl (Some ?B) (of_nat (length ?B)) 0 0 ?s2 = Some (GRUB_ERR_NONE, p', of_nat ?T, s3)"
    using r by (simp add: pks_sd_from_esl_def)
  from read_sbvar_parse [OF a0(1) fw rc room neB parse a]
  obtain s4 where res: "read_sbvar_from_pks fw fl ty 0 0 s = Some (GRUB_ERR_NONE, p', of_nat ?T, s4)"
    and a4: "appended (s\<lparr>plan := tl (plan s)\<rparr>) 0 [] s4 p' ys (concat (map (\<lambda>L. esl_entries L (esl_count L)) Ls))"
    by auto
  have arr0: "sd_array (s\<lparr>plan := tl (plan s)\<rparr>) 0 0 []" by (simp add: sd_array_def)
  have small: "unat (0 :: u32) + length ys < 2 ^ 32" using fits l by simp
  from appended_array [OF a4 arr0 small] have arr4: "sd_array s4 p' (of_nat ?T) ys" using l by simp
  have v4: "map (sd_view s4) ys = concat (map (\<lambda>L. esl_entries L (esl_count L)) Ls)"
    using a4 unfolding appended_def by blast
  have r4: "releasable s4 ys"
    using appended_releasable [OF a4 arr0 releasable_Nil] by simp
  have f4: "fault s4 = fault s" "statics s4 = statics s"
    using a4 unfolding appended_def by (auto simp add: statics_def)
  show ?thesis using res arr4 v4 r4 f4 by blast
qed

lemma read_deny_list:
  assumes al: "allocs_succeed (1 + 2 * sum_list (map esl_count Ls)) s"
    and fw: "grub_ieee1275_pks_read_sbvar fw fl ty (pks_max_object_size s) = (rc, bytes)"
    and deny: "(Ls = [] \<and> (rc = IEEE1275_CELL_NOT_FOUND
                             \<or> (0 \<le> rc \<and> written (pks_max_object_size s) bytes = [])))
               \<or> (Ls \<noteq> [] \<and> 0 \<le> rc \<and> bytes = concat Ls \<and> (\<forall>L \<in> set Ls. esl_exact L)
                    \<and> length (concat Ls) \<le> unat (pks_max_object_size s))"
    and fits: "sum_list (map esl_count Ls) * 24 < 2 ^ 32"
  shows "\<exists>e p' s' ys. read_sbvar_from_pks fw fl ty 0 0 s
                     = Some (e, p', of_nat (sum_list (map esl_count Ls)), s')
          \<and> (e = GRUB_ERR_NONE \<or> e = GRUB_ERR_FILE_NOT_FOUND \<or> e = GRUB_ERR_BAD_NUMBER)
          \<and> sd_array s' p' (of_nat (sum_list (map esl_count Ls))) ys
          \<and> map (sd_view s') ys = concat (map (\<lambda>L. esl_entries L (esl_count L)) Ls)
          \<and> fault s' = fault s \<and> statics s' = statics s"
  using deny
proof
  assume d: "Ls = [] \<and> (rc = IEEE1275_CELL_NOT_FOUND
                             \<or> (0 \<le> rc \<and> written (pks_max_object_size s) bytes = []))"
  have a1: "alloc_succeeds s" using al d allocs_succeed_Suc(1) [of 0 s] by simp
  from read_sbvar_absent [OF a1 fw, of 0 0] d
  obtain e s' where r: "read_sbvar_from_pks fw fl ty 0 0 s = Some (e, 0, 0, s')"
    "e = GRUB_ERR_FILE_NOT_FOUND \<or> e = GRUB_ERR_BAD_NUMBER"
    "fault s' = fault s" "statics s' = statics s" by blast
  have "sd_array s' 0 0 []" by (simp add: sd_array_def)
  then show ?thesis using r d by (intro exI [of _ e] exI [of _ 0] exI [of _ s'] exI [of _ "[]"]) auto
next
  assume d: "Ls \<noteq> [] \<and> 0 \<le> rc \<and> bytes = concat Ls \<and> (\<forall>L \<in> set Ls. esl_exact L)
                    \<and> length (concat Ls) \<le> unat (pks_max_object_size s)"
  then have fw': "grub_ieee1275_pks_read_sbvar fw fl ty (pks_max_object_size s) = (rc, concat Ls)"
    using fw by simp
  from d have h: "0 \<le> rc" "length (concat Ls) \<le> unat (pks_max_object_size s)" "Ls \<noteq> []"
    "\<forall>L \<in> set Ls. esl_exact L" by blast+
  from read_sbvar_loaded [OF al fw' h fits] show ?thesis by blast
qed

text \<open>
  C7. Let the mode probe return true (the interface is there and the version byte is
  1) with the keystore empty, and let the read of the allow-list (db) report "not
  found", or succeed with no bytes. Then \<^verbatim>\<open>grub_pks_keystore_init\<close> goes on to load
  the deny-list (dbx). When that load does not fail in turn, that is, when the
  deny-list is not found, or empty, or is made of well-formed signature lists \<open>Ls\<close>
  that fit the firmware's maximum object size, and the allocator grants the requests
  (one buffer for each read, two blocks for each entry), the function returns with
  \<^verbatim>\<open>pks_use_keystore\<close> set, so that \<^verbatim>\<open>grub_pks_get_keystore\<close> returns the
  keystore; with \<open>use_static_keys\<close> true; with an empty allow-list; and with the
  deny-list holding, in order, the entries of the lists \<open>Ls\<close> (none if the deny-list
  is not found or empty). No fault is raised. (A deny-list load that fails, with a
  read error, a malformed list or a refused allocation, ends in the teardown, which
  clears \<open>use_static_keys\<close> with the rest of the structure.)
\<close>

theorem init_allow_list_absent:
  assumes pres: "is_pks_present fw s = (True, s1)"
    and zero: "pks_keystore s = pks_keystore_zero"
    and dbv: "grub_ieee1275_pks_read_sbvar fw 0 PKS_SBVAR_DB (pks_max_object_size s1) = (rc, bytes)"
    and absent: "rc = IEEE1275_CELL_NOT_FOUND \<or> (0 \<le> rc \<and> written (pks_max_object_size s1) bytes = [])"
    and dbxv: "grub_ieee1275_pks_read_sbvar fw 0 PKS_SBVAR_DBX (pks_max_object_size s1) = (rc2, bytes2)"
    and deny: "(Ls = [] \<and> (rc2 = IEEE1275_CELL_NOT_FOUND
                             \<or> (0 \<le> rc2 \<and> written (pks_max_object_size s1) bytes2 = [])))
               \<or> (Ls \<noteq> [] \<and> 0 \<le> rc2 \<and> bytes2 = concat Ls \<and> (\<forall>L \<in> set Ls. esl_exact L)
                    \<and> length (concat Ls) \<le> unat (pks_max_object_size s1))"
    and fits: "sum_list (map esl_count Ls) * 24 < 2 ^ 32"
    and al: "allocs_succeed (2 + 2 * sum_list (map esl_count Ls)) s1"
  shows "\<exists>s' ys. grub_pks_keystore_init fw s = Some s'
           \<and> pks_use_keystore s' = True
           \<and> grub_pks_get_keystore s' = Some (pks_keystore s')
           \<and> use_static_keys (pks_keystore s') = True
           \<and> db (pks_keystore s') = 0 \<and> db_entries (pks_keystore s') = 0
           \<and> dbx_entries (pks_keystore s') = of_nat (sum_list (map esl_count Ls))
           \<and> sd_array s' (dbx (pks_keystore s')) (dbx_entries (pks_keystore s')) ys
           \<and> map (sd_view s') ys = concat (map (\<lambda>L. esl_entries L (esl_count L)) Ls)
           \<and> fault s' = fault s1"
proof -
  let ?T = "sum_list (map esl_count Ls)"
  have zero1: "pks_keystore s1 = pks_keystore_zero"
    using keystore_is_pks_present [of fw s] pres zero by simp
  have al': "allocs_succeed (Suc (1 + 2 * ?T)) s1" using al by simp
  note a0 = allocs_succeed_Suc [OF al']
  from read_sbvar_absent [OF a0(1) dbv absent, of 0 0]
  obtain e s2 where dbr: "read_sbvar_from_pks fw 0 PKS_SBVAR_DB 0 0 s1 = Some (e, 0, 0, s2)"
    and e: "e = GRUB_ERR_FILE_NOT_FOUND \<or> e = GRUB_ERR_BAD_NUMBER"
    and s2: "plan s2 = tl (plan s1)" "fault s2 = fault s1" "statics s2 = statics s1" by blast
  let ?K = "(pks_keystore s1)\<lparr>db := 0, db_entries := 0, use_static_keys := True\<rparr>"
  let ?s4 = "s2\<lparr>pks_keystore := ?K\<rparr>"
  have mx: "pks_max_object_size ?s4 = pks_max_object_size s1" using s2(3) by (simp add: statics_def)
  have al4: "allocs_succeed (1 + 2 * ?T) ?s4" using a0(2) s2(1) by (simp add: allocs_succeed_def)
  have dbxv4: "grub_ieee1275_pks_read_sbvar fw 0 PKS_SBVAR_DBX (pks_max_object_size ?s4) = (rc2, bytes2)"
    using dbxv by (simp only: mx)
  have deny4: "(Ls = [] \<and> (rc2 = IEEE1275_CELL_NOT_FOUND
                             \<or> (0 \<le> rc2 \<and> written (pks_max_object_size ?s4) bytes2 = [])))
               \<or> (Ls \<noteq> [] \<and> 0 \<le> rc2 \<and> bytes2 = concat Ls \<and> (\<forall>L \<in> set Ls. esl_exact L)
                    \<and> length (concat Ls) \<le> unat (pks_max_object_size ?s4))"
    using deny by (simp only: mx)
  from read_deny_list [OF al4 dbxv4 deny4 fits]
  obtain e2 p2 s5 ys where dbxr: "read_sbvar_from_pks fw 0 PKS_SBVAR_DBX 0 0 ?s4 = Some (e2, p2, of_nat ?T, s5)"
    and e2: "e2 = GRUB_ERR_NONE \<or> e2 = GRUB_ERR_FILE_NOT_FOUND \<or> e2 = GRUB_ERR_BAD_NUMBER"
    and arr: "sd_array s5 p2 (of_nat ?T) ys"
    and vs: "map (sd_view s5) ys = concat (map (\<lambda>L. esl_entries L (esl_count L)) Ls)"
    and f5: "fault s5 = fault ?s4" by blast
  have dbr': "read_sbvar_from_pks fw 0 PKS_SBVAR_DB (db (pks_keystore s1)) (db_entries (pks_keystore s1)) s1
              = Some (e, 0, 0, s2)"
    using dbr zero1 by (simp add: zero_fields)
  have dbxr': "read_sbvar_from_pks fw 0 PKS_SBVAR_DBX (dbx (pks_keystore s1)) (dbx_entries (pks_keystore s1))
                 (s2\<lparr>pks_keystore := (pks_keystore s1)\<lparr>db := 0, db_entries := 0, use_static_keys := True\<rparr>\<rparr>)
               = Some (e2, p2, of_nat ?T, s5)"
    using dbxr zero1 by (simp add: zero_fields)
  let ?s' = "s5\<lparr>pks_keystore := (pks_keystore s1)\<lparr>db := 0, db_entries := 0, use_static_keys := True,
                                                      dbx := p2, dbx_entries := of_nat ?T\<rparr>,
                    pks_use_keystore := True\<rparr>"
  have init: "grub_pks_keystore_init fw s = Some ?s'"
    by (rule init_absent_unfold [OF pres dbr' e dbxr' e2])
  have arr': "sd_array ?s' (dbx (pks_keystore ?s')) (dbx_entries (pks_keystore ?s')) ys"
    using arr by (simp add: sd_array_def)
  have vs': "map (sd_view ?s') ys = concat (map (\<lambda>L. esl_entries L (esl_count L)) Ls)"
  proof -
    have "sd_view ?s' = sd_view s5" by (rule sd_view_blocks) simp
    then show ?thesis using vs by simp
  qed
  have f': "fault ?s' = fault s1" using f5 s2(2) by simp
  show ?thesis
    apply (rule exI [of _ ?s'])
    apply (rule exI [of _ ys])
    using init arr' vs' f' apply (simp add: grub_pks_get_keystore_def)
    done
qed

theorem init_allow_list_absent_witness:
  "fst (is_pks_present (sample_fw [1] (holding PKS_SBVAR_DBX (sample_esl 7 1 2))) (boot []))
   \<and> fst (grub_ieee1275_pks_read_sbvar (sample_fw [1] (holding PKS_SBVAR_DBX (sample_esl 7 1 2)))
             0 PKS_SBVAR_DB 64) = IEEE1275_CELL_NOT_FOUND
   \<and> (\<exists>s' ys. grub_pks_keystore_init (sample_fw [1] (holding PKS_SBVAR_DBX (sample_esl 7 1 2))) (boot [])
                  = Some s'
          \<and> pks_use_keystore s' = True
          \<and> grub_pks_get_keystore s' = Some (pks_keystore s')
          \<and> use_static_keys (pks_keystore s') = True
          \<and> db (pks_keystore s') = 0 \<and> db_entries (pks_keystore s') = 0
          \<and> dbx_entries (pks_keystore s') = 2
          \<and> sd_array s' (dbx (pks_keystore s')) 2 ys
          \<and> map (sd_view s') ys =
               [(Some (replicate 16 7), Some 1, Some [1]), (Some (replicate 16 7), Some 1, Some [2])]
          \<and> \<not> fault s')"
proof -
  let ?fw = "sample_fw [1] (holding PKS_SBVAR_DBX (sample_esl 7 1 2))"
  let ?s1 = "\<lparr>blocks = [None], plan = tl [], freed = [Suc 0], fault = False,
            grub_errno = GRUB_ERR_NONE, pks_max_object_size = 64,
            pks_keystore = pks_keystore_zero, pks_use_keystore = False\<rparr>"
  have pres: "is_pks_present ?fw (boot []) = (True, ?s1)"
    by (rule probe_dynamic) (simp add: alloc_succeeds_def boot_def)
  have h: "pks_keystore (boot []) = pks_keystore_zero"
    "grub_ieee1275_pks_read_sbvar ?fw 0 PKS_SBVAR_DB (pks_max_object_size ?s1) = (IEEE1275_CELL_NOT_FOUND, [])"
    "IEEE1275_CELL_NOT_FOUND = IEEE1275_CELL_NOT_FOUND
       \<or> (0 \<le> IEEE1275_CELL_NOT_FOUND \<and> written (pks_max_object_size ?s1) [] = [])"
    "grub_ieee1275_pks_read_sbvar ?fw 0 PKS_SBVAR_DBX (pks_max_object_size ?s1) = (0, sample_esl 7 1 2)"
    "([sample_esl 7 1 2] = [] \<and> ((0 :: int) = IEEE1275_CELL_NOT_FOUND
                             \<or> ((0 :: int) \<le> 0 \<and> written (pks_max_object_size ?s1) (sample_esl 7 1 2) = [])))
               \<or> ([sample_esl 7 1 2] \<noteq> [] \<and> (0 :: int) \<le> 0 \<and> sample_esl 7 1 2 = concat [sample_esl 7 1 2]
                    \<and> (\<forall>L \<in> set [sample_esl 7 1 2]. esl_exact L)
                    \<and> length (concat [sample_esl 7 1 2]) \<le> unat (pks_max_object_size ?s1))"
    "sum_list (map esl_count [sample_esl 7 1 2]) * 24 < 2 ^ 32"
    "allocs_succeed (2 + 2 * sum_list (map esl_count [sample_esl 7 1 2])) ?s1"
    by (simp_all add: boot_def sample_fw_def holding_def sample_header sample_exact sample_count
          allocs_succeed_def PKS_SBVAR_DB_def PKS_SBVAR_DBX_def)
  from init_allow_list_absent [OF pres h]
  obtain s' ys where c: "grub_pks_keystore_init ?fw (boot []) = Some s'"
    "pks_use_keystore s' = True"
    "grub_pks_get_keystore s' = Some (pks_keystore s')"
    "use_static_keys (pks_keystore s') = True"
    "db (pks_keystore s') = 0" "db_entries (pks_keystore s') = 0"
    "dbx_entries (pks_keystore s') = of_nat (sum_list (map esl_count [sample_esl 7 1 2]))"
    "sd_array s' (dbx (pks_keystore s')) (dbx_entries (pks_keystore s')) ys"
    "map (sd_view s') ys = concat (map (\<lambda>L. esl_entries L (esl_count L)) [sample_esl 7 1 2])"
    "fault s' = fault ?s1"
    by (elim exE conjE)
  have c7: "dbx_entries (pks_keystore s') = 2" using c(7) by (simp add: sample_count)
  have c8: "sd_array s' (dbx (pks_keystore s')) 2 ys" using c(8) by (simp only: c7)
  have c9: "map (sd_view s') ys =
               [(Some (replicate 16 7), Some 1, Some [1]), (Some (replicate 16 7), Some 1, Some [2])]"
    using c(9) by (simp add: sample_count sample_entries)
  have c10: "\<not> fault s'" using c(10) by simp
  have p: "fst (is_pks_present ?fw (boot []))" by (simp add: pres)
  have nf: "fst (grub_ieee1275_pks_read_sbvar ?fw 0 PKS_SBVAR_DB 64) = IEEE1275_CELL_NOT_FOUND"
    by (simp add: sample_fw_def holding_def PKS_SBVAR_DB_def PKS_SBVAR_DBX_def)
  show ?thesis
    apply (intro conjI)
      apply (rule p)
     apply (rule nf)
    apply (rule exI [of _ s'])
    apply (rule exI [of _ ys])
    apply (intro conjI)
             apply (rule c(1))
            apply (rule c(2))
           apply (rule c(3))
          apply (rule c(4))
         apply (rule c(5))
        apply (rule c(6))
       apply (rule c7)
      apply (rule c8)
     apply (rule c9)
    apply (rule c10)
    done
qed

end
